theory Spec2Isabelle
  imports Main "HOL-Library.Sublist"
begin

section \<open>GEDCOM parser and generation builder of gedcom_to_pdf.py\<close>

text \<open>
  The development embeds the two pure parts of \<^verbatim>\<open>gedcom_to_pdf.py\<close>: the line
  parser \<^verbatim>\<open>parse_gedcom\<close> and the ancestor walk \<^verbatim>\<open>build_generations\<close>.

  A Python \<^verbatim>\<open>str\<close> is modelled as a \<^typ>\<open>string\<close>; a \<^typ>\<open>char\<close> stands for a
  code point below 256. A Python dict is a map, a dict with a fixed set of keys
  (the person, family and source dicts) is a record, and a subscript that can raise
  \<^verbatim>\<open>KeyError\<close> is a branch returning \<open>Inl KeyError\<close>.
\<close>

subsection \<open>String primitives of the Python runtime\<close>

text \<open>
  \<^verbatim>\<open>str.isspace\<close> on code points below 256: TAB, LF, VT, FF, CR, the four
  separators FS, GS, RS and US, the space, NEL and the no-break space.
\<close>

definition py_isspace :: "char \<Rightarrow> bool" where
  "py_isspace c =
     (c \<in> set [CHR 0x09, CHR 0x0A, CHR 0x0B, CHR 0x0C, CHR 0x0D, CHR 0x1C, CHR 0x1D,
               CHR 0x1E, CHR 0x1F, CHR 0x20, CHR 0x85, CHR 0xA0])"

text \<open>\<^verbatim>\<open>s.strip()\<close> and \<^verbatim>\<open>s.strip(chars)\<close>: remove the leading and trailing
  characters that satisfy the predicate.\<close>

definition strip_with :: "(char \<Rightarrow> bool) \<Rightarrow> string \<Rightarrow> string" where
  "strip_with P s = rev (dropWhile P (rev (dropWhile P s)))"

definition py_strip :: "string \<Rightarrow> string" where
  "py_strip s = strip_with py_isspace s"

text \<open>\<^verbatim>\<open>s.split(" ", n)\<close>: cut at single spaces, at most \<open>n\<close> times; two adjacent
  spaces give an empty field, and the empty string gives one empty field.\<close>

fun py_split :: "nat \<Rightarrow> string \<Rightarrow> string list" where
  "py_split 0 s = [s]"
| "py_split (Suc n) s =
     (if CHR '' '' \<in> set s
      then takeWhile (\<lambda>c. c \<noteq> CHR '' '') s
             # py_split n (tl (dropWhile (\<lambda>c. c \<noteq> CHR '' '') s))
      else [s])"

text \<open>\<^verbatim>\<open>s.startswith("@")\<close>.\<close>

definition startswith_at :: "string \<Rightarrow> bool" where
  "startswith_at s = (case s of [] \<Rightarrow> False | c # _ \<Rightarrow> c = CHR ''@'')"

text \<open>
  Reading a file opened in text mode with universal newlines: \<^verbatim>\<open>\r\n\<close> and a
  lone \<^verbatim>\<open>\r\<close> become \<^verbatim>\<open>\n\<close>, and iterating the file yields the lines with
  their terminator kept.
\<close>

fun universal_newlines :: "string \<Rightarrow> string" where
  "universal_newlines [] = []"
| "universal_newlines [c] = (if c = CHR 0x0D then [CHR 0x0A] else [c])"
| "universal_newlines (c # d # ds) =
     (if c = CHR 0x0D \<and> d = CHR 0x0A then CHR 0x0A # universal_newlines ds
      else if c = CHR 0x0D then CHR 0x0A # universal_newlines (d # ds)
      else c # universal_newlines (d # ds))"

fun split_keepends :: "string \<Rightarrow> string \<Rightarrow> string list" where
  "split_keepends cur [] = (if cur = [] then [] else [cur])"
| "split_keepends cur (c # cs) =
     (if c = CHR 0x0A then (cur @ [c]) # split_keepends [] cs
      else split_keepends (cur @ [c]) cs)"

definition file_lines :: "string \<Rightarrow> string list" where
  "file_lines text = split_keepends [] (universal_newlines text)"

text \<open>Test inputs are written as a list of lines, each ended by a line feed.\<close>

definition unlines :: "string list \<Rightarrow> string" where
  "unlines ls = concat (map (\<lambda>l. l @ [CHR 0x0A]) ls)"

subsection \<open>Data model\<close>

text \<open>The dicts built at lines 71-72, 75-76 and 79-80 of the source.\<close>

record individual =
  i_id :: string
  i_name :: string
  i_events :: "string \<rightharpoonup> string"
  i_sources :: "string list"
  i_famc :: "string list"
  i_fams :: "string list"

record family =
  f_id :: string
  f_husb :: string
  f_wife :: string
  f_chil :: "string list"
  f_events :: "string \<rightharpoonup> string"

record source =
  s_id :: string
  s_title :: string
  s_author :: string
  s_publ :: string
  s_text :: string

text \<open>The three values \<^verbatim>\<open>current_type\<close> takes besides \<^verbatim>\<open>None\<close>.\<close>

datatype rec_type = INDI | FAM | SOUR

text \<open>The local variables of \<^verbatim>\<open>parse_gedcom\<close> (lines 49-52).\<close>

record pstate =
  people :: "string \<rightharpoonup> individual"
  families :: "string \<rightharpoonup> family"
  sources :: "string \<rightharpoonup> source"
  root_id :: "string option"
  current :: "string option"
  current_type :: "rec_type option"
  in_birth :: bool
  in_death :: bool
  in_marr :: bool

datatype error = KeyError

definition init_state :: pstate where
  "init_state =
     \<lparr>people = Map.empty, families = Map.empty, sources = Map.empty, root_id = None,
      current = None, current_type = None,
      in_birth = False, in_death = False, in_marr = False\<rparr>"

subsection \<open>clean_id (lines 39-41)\<close>

definition clean_id :: "string \<Rightarrow> string" where
  "clean_id record_id =
     (if record_id \<noteq> [] then strip_with (\<lambda>c. c = CHR ''@'') record_id else record_id)"

subsection \<open>parse_gedcom (lines 44-143)\<close>

text \<open>Lines 56-60: the fields of a line, or \<open>None\<close> when the line is skipped by the
  \<^verbatim>\<open>continue\<close> of line 58.\<close>

definition split_line :: "string \<Rightarrow> (string \<times> string \<times> string) option" where
  "split_line line =
     (let parts = py_split (Suc (Suc 0)) (py_strip line)
      in if length parts < 2 then None
         else Some (parts ! 0, parts ! 1, if length parts > 2 then parts ! 2 else []))"

text \<open>Lines 63-86: a level-0 line.\<close>

definition new_record :: "pstate \<Rightarrow> string \<Rightarrow> string \<Rightarrow> pstate" where
  "new_record s tag data =
     (let s1 =
        (if startswith_at tag then
           (let rec_id = clean_id tag in
            if data = ''INDI'' then
              s\<lparr>current := Some rec_id, current_type := Some INDI,
                root_id := (if root_id s = None then Some rec_id else root_id s),
                people := (people s)(rec_id \<mapsto>
                  \<lparr>i_id = rec_id, i_name = [], i_events = Map.empty,
                   i_sources = [], i_famc = [], i_fams = []\<rparr>)\<rparr>
            else if data = ''FAM'' then
              s\<lparr>current := Some rec_id, current_type := Some FAM,
                families := (families s)(rec_id \<mapsto>
                  \<lparr>f_id = rec_id, f_husb = [], f_wife = [], f_chil = [],
                   f_events = Map.empty\<rparr>)\<rparr>
            else if data = ''SOUR'' then
              s\<lparr>current := Some rec_id, current_type := Some SOUR,
                sources := (sources s)(rec_id \<mapsto>
                  \<lparr>s_id = rec_id, s_title = [], s_author = [], s_publ = [],
                   s_text = []\<rparr>)\<rparr>
            else s\<lparr>current := None, current_type := None\<rparr>)
         else s\<lparr>current := None, current_type := None\<rparr>)
      in s1\<lparr>in_birth := False, in_death := False, in_marr := False\<rparr>)"

text \<open>\<^verbatim>\<open>people[current]\<close>, \<^verbatim>\<open>families[current]\<close> and \<^verbatim>\<open>sources[current]\<close> followed
  by a mutation of the dict found there; a missing key raises.\<close>

definition upd_person :: "pstate \<Rightarrow> (individual \<Rightarrow> individual) \<Rightarrow> error + pstate" where
  "upd_person s f =
     (case current s of
        None \<Rightarrow> Inl KeyError
      | Some c \<Rightarrow>
          (case people s c of
             None \<Rightarrow> Inl KeyError
           | Some p \<Rightarrow> Inr (s\<lparr>people := (people s)(c \<mapsto> f p)\<rparr>)))"

definition upd_family :: "pstate \<Rightarrow> (family \<Rightarrow> family) \<Rightarrow> error + pstate" where
  "upd_family s f =
     (case current s of
        None \<Rightarrow> Inl KeyError
      | Some c \<Rightarrow>
          (case families s c of
             None \<Rightarrow> Inl KeyError
           | Some fam \<Rightarrow> Inr (s\<lparr>families := (families s)(c \<mapsto> f fam)\<rparr>)))"

definition upd_source :: "pstate \<Rightarrow> (source \<Rightarrow> source) \<Rightarrow> error + pstate" where
  "upd_source s f =
     (case current s of
        None \<Rightarrow> Inl KeyError
      | Some c \<Rightarrow>
          (case sources s c of
             None \<Rightarrow> Inl KeyError
           | Some src \<Rightarrow> Inr (s\<lparr>sources := (sources s)(c \<mapsto> f src)\<rparr>)))"

text \<open>Lines 89-113: a line inside an individual record.\<close>

definition indi_line :: "pstate \<Rightarrow> string \<Rightarrow> string \<Rightarrow> error + pstate" where
  "indi_line s tag data =
     (if tag = ''NAME'' then
        upd_person s (\<lambda>p. p\<lparr>i_name := py_strip (filter (\<lambda>c. c \<noteq> CHR ''/'') data)\<rparr>)
      else if tag = ''BIRT'' then Inr (s\<lparr>in_birth := True\<rparr>)
      else if tag = ''DEAT'' then Inr (s\<lparr>in_death := True\<rparr>)
      else if tag = ''FAMC'' then
        upd_person s (\<lambda>p. p\<lparr>i_famc := i_famc p @ [clean_id data]\<rparr>)
      else if tag = ''FAMS'' then
        upd_person s (\<lambda>p. p\<lparr>i_fams := i_fams p @ [clean_id data]\<rparr>)
      else if tag = ''SOUR'' then
        upd_person s (\<lambda>p. p\<lparr>i_sources := i_sources p @ [clean_id data]\<rparr>)
      else if tag = ''DATE'' then
        (if in_birth s then
           (case upd_person s (\<lambda>p. p\<lparr>i_events := (i_events p)(''birth_date'' \<mapsto> data)\<rparr>) of
              Inl e \<Rightarrow> Inl e
            | Inr s' \<Rightarrow> Inr (s'\<lparr>in_birth := False\<rparr>))
         else if in_death s then
           (case upd_person s (\<lambda>p. p\<lparr>i_events := (i_events p)(''death_date'' \<mapsto> data)\<rparr>) of
              Inl e \<Rightarrow> Inl e
            | Inr s' \<Rightarrow> Inr (s'\<lparr>in_death := False\<rparr>))
         else Inr s)
      else if tag = ''PLAC'' then
        upd_person s (\<lambda>p.
          if i_events p ''birth_date'' \<noteq> None \<and> i_events p ''birth_place'' = None
          then p\<lparr>i_events := (i_events p)(''birth_place'' \<mapsto> data)\<rparr>
          else if i_events p ''death_date'' \<noteq> None \<and> i_events p ''death_place'' = None
          then p\<lparr>i_events := (i_events p)(''death_place'' \<mapsto> data)\<rparr>
          else p)
      else Inr s)"

text \<open>Lines 116-130: a line inside a family record.\<close>

definition fam_line :: "pstate \<Rightarrow> string \<Rightarrow> string \<Rightarrow> error + pstate" where
  "fam_line s tag data =
     (if tag = ''HUSB'' then upd_family s (\<lambda>fam. fam\<lparr>f_husb := clean_id data\<rparr>)
      else if tag = ''WIFE'' then upd_family s (\<lambda>fam. fam\<lparr>f_wife := clean_id data\<rparr>)
      else if tag = ''CHIL'' then
        upd_family s (\<lambda>fam. fam\<lparr>f_chil := f_chil fam @ [clean_id data]\<rparr>)
      else if tag = ''MARR'' then Inr (s\<lparr>in_marr := True\<rparr>)
      else if tag = ''DATE'' \<and> in_marr s then
        (case upd_family s (\<lambda>fam. fam\<lparr>f_events := (f_events fam)(''marriage_date'' \<mapsto> data)\<rparr>) of
           Inl e \<Rightarrow> Inl e
         | Inr s' \<Rightarrow> Inr (s'\<lparr>in_marr := False\<rparr>))
      else if tag = ''PLAC'' then
        upd_family s (\<lambda>fam.
          if f_events fam ''marriage_date'' \<noteq> None \<and> f_events fam ''marriage_place'' = None
          then fam\<lparr>f_events := (f_events fam)(''marriage_place'' \<mapsto> data)\<rparr>
          else fam)
      else Inr s)"

text \<open>Lines 133-141: a line inside a source record.\<close>

definition sour_line :: "pstate \<Rightarrow> string \<Rightarrow> string \<Rightarrow> error + pstate" where
  "sour_line s tag data =
     (if tag = ''TITL'' then upd_source s (\<lambda>src. src\<lparr>s_title := data\<rparr>)
      else if tag = ''AUTH'' then upd_source s (\<lambda>src. src\<lparr>s_author := data\<rparr>)
      else if tag = ''PUBL'' then upd_source s (\<lambda>src. src\<lparr>s_publ := data\<rparr>)
      else if tag = ''TEXT'' then upd_source s (\<lambda>src. src\<lparr>s_text := data\<rparr>)
      else Inr s)"

text \<open>Lines 63-141: the body of the loop once the fields are known.\<close>

definition handle :: "pstate \<Rightarrow> string \<Rightarrow> string \<Rightarrow> string \<Rightarrow> error + pstate" where
  "handle s level tag data =
     (if level = ''0'' then Inr (new_record s tag data)
      else if current_type s = Some INDI then indi_line s tag data
      else if current_type s = Some FAM then fam_line s tag data
      else if current_type s = Some SOUR then sour_line s tag data
      else Inr s)"

definition process_line :: "pstate \<Rightarrow> string \<Rightarrow> error + pstate" where
  "process_line s line =
     (case split_line line of
        None \<Rightarrow> Inr s
      | Some (level, tag, data) \<Rightarrow> handle s level tag data)"

text \<open>The \<^verbatim>\<open>for line in f\<close> loop; an exception leaves it.\<close>

fun parse_loop :: "pstate \<Rightarrow> string list \<Rightarrow> error + pstate" where
  "parse_loop s [] = Inr s"
| "parse_loop s (line # rest) =
     (case process_line s line of
        Inl e \<Rightarrow> Inl e
      | Inr s' \<Rightarrow> parse_loop s' rest)"

type_synonym parse_result =
  "(string \<rightharpoonup> individual) \<times> (string \<rightharpoonup> family) \<times> (string \<rightharpoonup> source) \<times> string option"

text \<open>\<^verbatim>\<open>parse_gedcom\<close>, on the contents of the file at \<^verbatim>\<open>path\<close>.\<close>

definition parse_gedcom :: "string \<Rightarrow> error + parse_result" where
  "parse_gedcom text =
     (case parse_loop init_state (file_lines text) of
        Inl e \<Rightarrow> Inl e
      | Inr s \<Rightarrow> Inr (people s, families s, sources s, root_id s))"

subsection \<open>build_generations (lines 146-168)\<close>

text \<open>\<^verbatim>\<open>generations[k]\<close> on a \<^verbatim>\<open>defaultdict(list)\<close>: a missing key is inserted with
  the empty list.\<close>

definition dd_getitem ::
  "(int \<rightharpoonup> string list) \<Rightarrow> int \<Rightarrow> (int \<rightharpoonup> string list) \<times> string list" where
  "dd_getitem d k = (case d k of Some v \<Rightarrow> (d, v) | None \<Rightarrow> (d(k \<mapsto> []), []))"

text \<open>Lines 161-164.\<close>

definition add_parents :: "family \<Rightarrow> string list \<Rightarrow> string list" where
  "add_parents fam cur =
     (let cur1 = (if f_husb fam \<noteq> [] then cur @ [f_husb fam] else cur)
      in if f_wife fam \<noteq> [] then cur1 @ [f_wife fam] else cur1)"

text \<open>Lines 158-164: the loop over \<^verbatim>\<open>people[person_id]["famc"]\<close>. A family record
  is a dict with five keys, hence true in \<^verbatim>\<open>if fam\<close> whenever it is found.\<close>

fun famc_loop :: "(string \<rightharpoonup> family) \<Rightarrow> string list \<Rightarrow> string list \<Rightarrow> string list" where
  "famc_loop fams cur [] = cur"
| "famc_loop fams cur (fam_id # rest) =
     (case fams fam_id of
        None \<Rightarrow> famc_loop fams cur rest
      | Some fam \<Rightarrow> famc_loop fams (add_parents fam cur) rest)"

text \<open>Lines 155-164: the loop over \<^verbatim>\<open>generations[g - 1]\<close>.\<close>

fun person_loop ::
  "(string \<rightharpoonup> individual) \<Rightarrow> (string \<rightharpoonup> family) \<Rightarrow> string list \<Rightarrow> string list \<Rightarrow> string list" where
  "person_loop ppl fams cur [] = cur"
| "person_loop ppl fams cur (person_id # rest) =
     (case ppl person_id of
        None \<Rightarrow> person_loop ppl fams cur rest
      | Some p \<Rightarrow> person_loop ppl fams (famc_loop fams cur (i_famc p)) rest)"

text \<open>Lines 153-167: the loop over \<^verbatim>\<open>range(2, max_gen + 1)\<close>, left by \<^verbatim>\<open>break\<close>.\<close>

fun gen_loop ::
  "(string \<rightharpoonup> individual) \<Rightarrow> (string \<rightharpoonup> family) \<Rightarrow> (int \<rightharpoonup> string list) \<Rightarrow> int list
     \<Rightarrow> (int \<rightharpoonup> string list)" where
  "gen_loop ppl fams generations [] = generations"
| "gen_loop ppl fams generations (g # gs) =
     (case dd_getitem generations (g - 1) of
        (generations1, prev) \<Rightarrow>
          (let cur = person_loop ppl fams [] prev
           in if cur = [] then generations1
              else gen_loop ppl fams (generations1(g \<mapsto> cur)) gs))"

definition build_generations ::
  "(string \<rightharpoonup> individual) \<Rightarrow> (string \<rightharpoonup> family) \<Rightarrow> string \<Rightarrow> int \<Rightarrow> (int \<rightharpoonup> string list)" where
  "build_generations ppl fams root max_gen =
     gen_loop ppl fams (Map.empty(1 \<mapsto> [root])) [2..max_gen]"

subsection \<open>The generation set in the words of the specification\<close>

text \<open>
  The husband, then the wife, of one family of a child-of list; absent ones and unknown
  families contribute nothing.
\<close>

definition spec_family_parents :: "(string \<rightharpoonup> family) \<Rightarrow> string \<Rightarrow> string list" where
  "spec_family_parents fams fam_id =
     (case fams fam_id of
        None \<Rightarrow> []
      | Some fam \<Rightarrow>
          (if f_husb fam \<noteq> [] then [f_husb fam] else [])
            @ (if f_wife fam \<noteq> [] then [f_wife fam] else []))"

text \<open>The parents of one individual of the previous generation, over the child-of list
  in order; an individual missing from the mapping contributes nothing.\<close>

definition spec_person_parents ::
  "(string \<rightharpoonup> individual) \<Rightarrow> (string \<rightharpoonup> family) \<Rightarrow> string \<Rightarrow> string list" where
  "spec_person_parents ppl fams person_id =
     (case ppl person_id of
        None \<Rightarrow> []
      | Some p \<Rightarrow> concat (map (spec_family_parents fams) (i_famc p)))"

text \<open>Generation \<open>g\<close> from generation \<open>g - 1\<close>: the concatenation over its individuals in
  order, duplicates kept.\<close>

definition spec_next_generation ::
  "(string \<rightharpoonup> individual) \<Rightarrow> (string \<rightharpoonup> family) \<Rightarrow> string list \<Rightarrow> string list" where
  "spec_next_generation ppl fams prev = concat (map (spec_person_parents ppl fams) prev)"

text \<open>The accumulator of generation \<open>n + 1\<close> when nothing stops the expansion.\<close>

fun spec_ancestors ::
  "(string \<rightharpoonup> individual) \<Rightarrow> (string \<rightharpoonup> family) \<Rightarrow> string \<Rightarrow> nat \<Rightarrow> string list" where
  "spec_ancestors ppl fams root 0 = [root]"
| "spec_ancestors ppl fams root (Suc n) = spec_next_generation ppl fams (spec_ancestors ppl fams root n)"

text \<open>The generations up to a bound whose accumulator is not empty.\<close>

definition spec_populated ::
  "(string \<rightharpoonup> individual) \<Rightarrow> (string \<rightharpoonup> family) \<Rightarrow> string \<Rightarrow> int \<Rightarrow> (int \<rightharpoonup> string list)" where
  "spec_populated ppl fams root b =
     (\<lambda>g. if 1 \<le> g \<and> g \<le> b \<and> spec_ancestors ppl fams root (nat (g - 1)) \<noteq> []
          then Some (spec_ancestors ppl fams root (nat (g - 1))) else None)"

subsection \<open>Notions used to state the parser's properties\<close>

text \<open>The record that \<^verbatim>\<open>current\<close> names exists in the mapping of its kind: no
  subscript of lines 89-141 can raise.\<close>

definition wf_state :: "pstate \<Rightarrow> bool" where
  "wf_state s =
     (case current_type s of
        None \<Rightarrow> True
      | Some INDI \<Rightarrow> (case current s of None \<Rightarrow> False | Some c \<Rightarrow> people s c \<noteq> None)
      | Some FAM \<Rightarrow> (case current s of None \<Rightarrow> False | Some c \<Rightarrow> families s c \<noteq> None)
      | Some SOUR \<Rightarrow> (case current s of None \<Rightarrow> False | Some c \<Rightarrow> sources s c \<noteq> None))"

text \<open>A line with fewer than two fields, left by the \<^verbatim>\<open>continue\<close> of line 58.\<close>

definition skipped :: "string \<Rightarrow> bool" where
  "skipped line = (split_line line = None)"

text \<open>A line that opens a record of the given kind (lines 63-80); the identifier it
  opens.\<close>

definition opens :: "string \<Rightarrow> string \<Rightarrow> bool" where
  "opens kind line =
     (case split_line line of
        None \<Rightarrow> False
      | Some (level, tag, data) \<Rightarrow> level = ''0'' \<and> startswith_at tag \<and> data = kind)"

definition line_id :: "string \<Rightarrow> string" where
  "line_id line =
     (case split_line line of None \<Rightarrow> [] | Some (level, tag, data) \<Rightarrow> clean_id tag)"

text \<open>A line that opens a record of the given kind under the identifier \<open>k\<close>.\<close>

definition reopens :: "string \<Rightarrow> string \<Rightarrow> string \<Rightarrow> bool" where
  "reopens kind k line = (opens kind line \<and> line_id line = k)"

text \<open>The identifier of the first individual record opened by a list of lines.\<close>

definition spec_first_individual :: "string list \<Rightarrow> string option" where
  "spec_first_individual ls = map_option line_id (find (opens ''INDI'') ls)"

text \<open>A record after some lines compared with the record before: lists are only
  appended to, no key leaves an event map and the identifier stays; the other fields
  may be overwritten.\<close>

definition individual_grows :: "individual \<Rightarrow> individual \<Rightarrow> bool" where
  "individual_grows p p' =
     (i_id p' = i_id p \<and> prefix (i_sources p) (i_sources p') \<and> prefix (i_famc p) (i_famc p') \<and>
      prefix (i_fams p) (i_fams p') \<and> dom (i_events p) \<subseteq> dom (i_events p'))"

definition family_grows :: "family \<Rightarrow> family \<Rightarrow> bool" where
  "family_grows fam fam' =
     (f_id fam' = f_id fam \<and> prefix (f_chil fam) (f_chil fam') \<and>
      dom (f_events fam) \<subseteq> dom (f_events fam'))"

definition source_kept :: "source \<Rightarrow> source \<Rightarrow> bool" where
  "source_kept src src' = (s_id src' = s_id src)"

text \<open>Lines that leave the pending flags alone: a \<open>quiet\<close> line is skipped or lies
  below level 0 with a tag other than BIRT, DEAT and DATE; a \<open>calm\<close> line may also be a
  DATE line.\<close>

definition quiet :: "string \<Rightarrow> bool" where
  "quiet line =
     (case split_line line of
        None \<Rightarrow> True
      | Some (level, tag, data) \<Rightarrow>
          level \<noteq> ''0'' \<and> tag \<noteq> ''BIRT'' \<and> tag \<noteq> ''DEAT'' \<and> tag \<noteq> ''DATE'')"

definition calm :: "string \<Rightarrow> bool" where
  "calm line =
     (case split_line line of
        None \<Rightarrow> True
      | Some (level, tag, data) \<Rightarrow> level \<noteq> ''0'' \<and> tag \<noteq> ''BIRT'' \<and> tag \<noteq> ''DEAT'')"

subsection \<open>Example data\<close>

text \<open>The individuals and families mappings of a root \<open>I1\<close> who is a child of the family
  \<open>F1\<close> of \<open>I2\<close> and \<open>I3\<close>, married on 4 JUL 1950 in Boston.\<close>

definition ex_people :: "string \<rightharpoonup> individual" where
  "ex_people =
     [''I1'' \<mapsto> \<lparr>i_id = ''I1'', i_name = [], i_events = Map.empty, i_sources = [],
                  i_famc = [''F1''], i_fams = []\<rparr>]"

definition ex_families :: "string \<rightharpoonup> family" where
  "ex_families =
     [''F1'' \<mapsto> \<lparr>f_id = ''F1'', f_husb = ''I2'', f_wife = ''I3'', f_chil = [],
                  f_events = [''marriage_date'' \<mapsto> ''4 JUL 1950'',
                              ''marriage_place'' \<mapsto> ''Boston'']\<rparr>]"

text \<open>The file that these mappings are parsed from.\<close>

definition ex_text :: string where
  "ex_text =
     unlines [''0 @I1@ INDI'', ''1 FAMC @F1@'', ''0 @F1@ FAM'', ''1 HUSB @I2@'',
              ''1 WIFE @I3@'', ''1 MARR'', ''2 DATE 4 JUL 1950'', ''2 PLAC Boston'']"

text \<open>A file with a line of one field between two well-formed lines.\<close>

definition garbage_text :: string where
  "garbage_text = unlines [''0 @I1@ INDI'', ''GARBAGE'', ''1 NAME John /Smith/'']"

text \<open>A file where a birth with a place and no date is followed by a death with a
  date.\<close>

definition birth_place_only_text :: string where
  "birth_place_only_text =
     unlines [''0 @I1@ INDI'', ''1 BIRT'', ''2 PLAC Boston'', ''1 DEAT'',
              ''2 DATE 3 MAR 1970'']"

text \<open>A file where a DEAT line without a date precedes a BIRT line with two DATE lines,
  and the same file without its last line.\<close>

definition two_dates_prefix :: string where
  "two_dates_prefix = unlines [''0 @I1@ INDI'', ''1 DEAT'', ''1 BIRT'', ''2 DATE 1 JAN 1900'']"

definition two_dates_text :: string where
  "two_dates_text =
     unlines [''0 @I1@ INDI'', ''1 DEAT'', ''1 BIRT'', ''2 DATE 1 JAN 1900'',
              ''2 DATE 2 JAN 1900'']"

text \<open>A file whose last line opens the identifier of its first record again, and the
  same file without that line.\<close>

definition reuse_prefix :: string where
  "reuse_prefix = unlines [''0 @I1@ INDI'', ''1 NAME John /Smith/'', ''1 FAMC @F1@'']"

definition reuse_text :: string where
  "reuse_text =
     unlines [''0 @I1@ INDI'', ''1 NAME John /Smith/'', ''1 FAMC @F1@'', ''0 @I1@ INDI'']"

text \<open>States of the parser: after \<^verbatim>\<open>0 @I1@ INDI\<close>; inside the record of an
  individual whose birth date is known; and after \<^verbatim>\<open>0 @I2@ INDI\<close> and
  \<^verbatim>\<open>0 @F1@ FAM\<close>.\<close>

definition fresh_person :: individual where
  "fresh_person =
     \<lparr>i_id = ''I1'', i_name = [], i_events = Map.empty, i_sources = [], i_famc = [],
      i_fams = []\<rparr>"

definition born_person :: individual where
  "born_person =
     \<lparr>i_id = ''I1'', i_name = ''John Smith'', i_events = [''birth_date'' \<mapsto> ''1 JAN 1900''],
      i_sources = [], i_famc = [''F1''], i_fams = []\<rparr>"

definition fresh_state :: pstate where
  "fresh_state =
     \<lparr>people = [''I1'' \<mapsto> fresh_person], families = Map.empty, sources = Map.empty,
      root_id = Some ''I1'', current = Some ''I1'', current_type = Some INDI,
      in_birth = False, in_death = False, in_marr = False\<rparr>"

definition born_state :: pstate where
  "born_state =
     \<lparr>people = [''I1'' \<mapsto> born_person], families = Map.empty, sources = Map.empty,
      root_id = Some ''I1'', current = Some ''I1'', current_type = Some INDI,
      in_birth = False, in_death = False, in_marr = False\<rparr>"

definition fam_state :: pstate where
  "fam_state =
     \<lparr>people = [''I2'' \<mapsto> \<lparr>i_id = ''I2'', i_name = [], i_events = Map.empty,
                           i_sources = [], i_famc = [], i_fams = []\<rparr>],
      families = [''F1'' \<mapsto> \<lparr>f_id = ''F1'', f_husb = [], f_wife = [], f_chil = [],
                             f_events = Map.empty\<rparr>],
      sources = Map.empty,
      root_id = Some ''I2'', current = Some ''F1'', current_type = Some FAM,
      in_birth = False, in_death = False, in_marr = False\<rparr>"

text \<open>Inside the record of an individual whose death date is known; and a state with a
  family and a source as well.\<close>

definition died_person :: individual where
  "died_person =
     \<lparr>i_id = ''I1'', i_name = ''John Smith'', i_events = [''death_date'' \<mapsto> ''3 MAR 1970''],
      i_sources = [], i_famc = [], i_fams = []\<rparr>"

definition died_state :: pstate where
  "died_state =
     \<lparr>people = [''I1'' \<mapsto> died_person], families = Map.empty, sources = Map.empty,
      root_id = Some ''I1'', current = Some ''I1'', current_type = Some INDI,
      in_birth = False, in_death = False, in_marr = False\<rparr>"

definition ex_source :: source where
  "ex_source =
     \<lparr>s_id = ''S1'', s_title = ''Parish register'', s_author = [], s_publ = [], s_text = []\<rparr>"

definition full_state :: pstate where
  "full_state =
     \<lparr>people = [''I1'' \<mapsto> born_person], families = ex_families, sources = [''S1'' \<mapsto> ex_source],
      root_id = Some ''I1'', current = Some ''I1'', current_type = Some INDI,
      in_birth = False, in_death = False, in_marr = False\<rparr>"

section \<open>The generation builder\<close>

subsection \<open>The loops compute the specification's concatenation\<close>

lemma famc_loop_concat:
  "famc_loop fams cur fs = cur @ concat (map (spec_family_parents fams) fs)"
  by (induction fs arbitrary: cur)
     (auto simp: spec_family_parents_def add_parents_def Let_def split: option.splits)

lemma person_loop_next:
  "person_loop ppl fams cur ps = cur @ spec_next_generation ppl fams ps"
  by (induction ps arbitrary: cur)
     (auto simp: spec_next_generation_def spec_person_parents_def famc_loop_concat split: option.splits)

subsection \<open>The result of build_generations in closed form\<close>

text \<open>An empty accumulator stays empty: the next generation of nobody is empty.\<close>

lemma ancestors_stay_empty:
  "spec_ancestors ppl fams root n = [] \<Longrightarrow> n \<le> m \<Longrightarrow> spec_ancestors ppl fams root m = []"
proof (induction m)
  case 0
  then show ?case by simp
next
  case (Suc m)
  show ?case
  proof (cases "n = Suc m")
    case True
    with Suc.prems show ?thesis by simp
  next
    case False
    with Suc.prems have "n \<le> m" by simp
    with Suc have "spec_ancestors ppl fams root m = []" by simp
    then show ?thesis by (simp add: spec_next_generation_def)
  qed
qed

lemma populated_extend:
  assumes "2 \<le> g" and "spec_ancestors ppl fams root (nat (g - 1)) \<noteq> []"
  shows "(spec_populated ppl fams root (g - 1))(g \<mapsto> spec_ancestors ppl fams root (nat (g - 1)))
           = spec_populated ppl fams root g"
  using assms by (auto simp: spec_populated_def fun_eq_iff)

lemma populated_stop:
  assumes "2 \<le> g" and "spec_ancestors ppl fams root (nat (g - 1)) = []" and "g - 1 \<le> m"
  shows "spec_populated ppl fams root (g - 1) = spec_populated ppl fams root m"
proof
  fix j
  show "spec_populated ppl fams root (g - 1) j = spec_populated ppl fams root m j"
  proof (cases "j \<le> g - 1")
    case True
    with assms show ?thesis by (simp add: spec_populated_def)
  next
    case False
    with assms(1) have "nat (g - 1) \<le> nat (j - 1)" by simp
    with assms(2) have "spec_ancestors ppl fams root (nat (j - 1)) = []"
      by (rule ancestors_stay_empty)
    with False show ?thesis by (simp add: spec_populated_def)
  qed
qed

text \<open>One round of the loop at \<open>g\<close>, entered with the generations below \<open>g\<close>
  populated: the read of \<^verbatim>\<open>generations[g - 1]\<close> finds its key, so the
  \<^verbatim>\<open>defaultdict\<close> inserts nothing.\<close>

lemma gen_loop_step:
  assumes "2 \<le> g" and "spec_ancestors ppl fams root (nat (g - 2)) \<noteq> []"
  shows "gen_loop ppl fams (spec_populated ppl fams root (g - 1)) (g # gs)
           = (if spec_ancestors ppl fams root (nat (g - 1)) = []
              then spec_populated ppl fams root (g - 1)
              else gen_loop ppl fams (spec_populated ppl fams root g) gs)"
proof -
  from assms have prev: "spec_populated ppl fams root (g - 1) (g - 1)
      = Some (spec_ancestors ppl fams root (nat (g - 2)))"
    by (simp add: spec_populated_def)
  from assms have nat_eq: "nat (g - 1) = Suc (nat (g - 2))" by simp
  have cur: "person_loop ppl fams [] (spec_ancestors ppl fams root (nat (g - 2)))
      = spec_ancestors ppl fams root (nat (g - 1))"
    by (simp add: person_loop_next nat_eq)
  show ?thesis
    using assms(1) by (simp add: dd_getitem_def prev cur populated_extend)
qed

lemma gen_loop_populated:
  assumes "2 \<le> g" and "spec_ancestors ppl fams root (nat (g - 2)) \<noteq> []"
  shows "gen_loop ppl fams (spec_populated ppl fams root (g - 1)) [g..m]
           = spec_populated ppl fams root (max (g - 1) m)"
  using assms
proof (induction "nat (m + 1 - g)" arbitrary: g)
  case 0
  then have "[g..m] = []" by simp
  moreover from 0 have "max (g - 1) m = g - 1" by simp
  ultimately show ?case by simp
next
  case (Suc k)
  then have le: "g \<le> m" by simp
  then have unfold: "[g..m] = g # [g + 1..m]" by (simp add: upto_rec1)
  from le have mx: "max (g - 1) m = m" by simp
  note step = gen_loop_step [OF Suc.prems, of "[g + 1..m]"]
  show ?case
  proof (cases "spec_ancestors ppl fams root (nat (g - 1)) = []")
    case True
    then have "gen_loop ppl fams (spec_populated ppl fams root (g - 1)) [g..m]
            = spec_populated ppl fams root (g - 1)"
      by (simp only: unfold step) simp
    also from True Suc.prems le have "\<dots> = spec_populated ppl fams root m"
      by (intro populated_stop) simp_all
    finally show ?thesis by (simp only: mx)
  next
    case False
    from Suc.hyps(2) have k: "k = nat (m + 1 - (g + 1))" by simp
    from Suc.prems False
    have "gen_loop ppl fams (spec_populated ppl fams root (g + 1 - 1)) [g + 1..m]
            = spec_populated ppl fams root (max (g + 1 - 1) m)"
      by (intro Suc.hyps(1) [OF k]) simp_all
    moreover from le have "max (g + 1 - 1) m = m" by simp
    ultimately have "gen_loop ppl fams (spec_populated ppl fams root g) [g + 1..m]
            = spec_populated ppl fams root m" by simp
    moreover from False
    have "gen_loop ppl fams (spec_populated ppl fams root (g - 1)) [g..m]
            = gen_loop ppl fams (spec_populated ppl fams root g) [g + 1..m]"
      by (simp only: unfold step) simp
    ultimately show ?thesis by (simp only: mx)
  qed
qed

lemma build_generations_populated:
  "build_generations ppl fams root max_gen = spec_populated ppl fams root (max 1 max_gen)"
proof -
  have "Map.empty(1 \<mapsto> [root]) = spec_populated ppl fams root (2 - 1)"
    by (auto simp: spec_populated_def fun_eq_iff)
  then show ?thesis
    using gen_loop_populated [of 2 ppl fams root max_gen]
    by (simp add: build_generations_def)
qed

lemma populated_cut:
  assumes "spec_ancestors ppl fams root n = []" and "int n \<le> m"
  shows "spec_populated ppl fams root m = spec_populated ppl fams root (int n)"
proof
  fix g
  show "spec_populated ppl fams root m g = spec_populated ppl fams root (int n) g"
  proof (cases "g \<le> int n")
    case True
    with assms(2) show ?thesis by (simp add: spec_populated_def)
  next
    case False
    then have "n \<le> nat (g - 1)" by simp
    with assms(1) have "spec_ancestors ppl fams root (nat (g - 1)) = []"
      by (rule ancestors_stay_empty)
    then show ?thesis by (simp add: spec_populated_def)
  qed
qed

lemma next_generation_Nil: "spec_next_generation ppl fams [] = []"
  by (simp add: spec_next_generation_def)

lemma ancestors_nonempty_below:
  "spec_ancestors ppl fams root m \<noteq> [] \<Longrightarrow> n \<le> m \<Longrightarrow> spec_ancestors ppl fams root n \<noteq> []"
  using ancestors_stay_empty by blast

lemma next_generation_root_empty:
  assumes "ppl root = None \<or> (\<exists>p. ppl root = Some p \<and> i_famc p = [])"
  shows "spec_ancestors ppl fams root (Suc 0) = []"
  using assms by (auto simp: spec_next_generation_def spec_person_parents_def)

subsection \<open>The builder at the example data\<close>

lemma ex_build_2:
  "build_generations ex_people ex_families ''I1'' 2 = [1 \<mapsto> [''I1''], 2 \<mapsto> [''I2'', ''I3'']]"
  by (simp add: build_generations_def dd_getitem_def ex_people_def ex_families_def add_parents_def)

lemma ex_build_10:
  "build_generations ex_people ex_families ''I1'' 10 = [1 \<mapsto> [''I1''], 2 \<mapsto> [''I2'', ''I3'']]"
  by (simp add: build_generations_def dd_getitem_def ex_people_def ex_families_def add_parents_def)

subsection \<open>Claims about build_generations\<close>

text \<open>
  C2. For every individuals mapping, families mapping, root and \<open>max_gen \<ge> 1\<close>,
  generation 1 of the result is exactly \<open>[root]\<close>, and every generation \<open>g > 1\<close> that is
  present is the concatenation, over the individuals of generation \<open>g - 1\<close> in order
  (skipping those absent from the individuals mapping) and over the families of their
  child-of lists in order (skipping those absent from the families mapping), of the
  husband (if not empty) followed by the wife (if not empty), duplicates kept.
\<close>

theorem build_generations_contents:
  assumes "1 \<le> max_gen"
  shows "build_generations ppl fams root max_gen 1 = Some [root] \<and>
         (\<forall>g cur. 1 < g \<and> build_generations ppl fams root max_gen g = Some cur \<longrightarrow>
            (\<exists>prev. build_generations ppl fams root max_gen (g - 1) = Some prev \<and>
                    cur = spec_next_generation ppl fams prev))"
proof (intro conjI allI impI)
  show "build_generations ppl fams root max_gen 1 = Some [root]"
    by (simp add: build_generations_populated spec_populated_def)
next
  fix g cur
  assume a: "1 < g \<and> build_generations ppl fams root max_gen g = Some cur"
  then have g: "1 < g" and le: "g \<le> max 1 max_gen"
    and cur: "cur = spec_ancestors ppl fams root (nat (g - 1))" and ne: "cur \<noteq> []"
    by (auto simp: build_generations_populated spec_populated_def split: if_splits)
  from g have nat_eq: "nat (g - 1) = Suc (nat (g - 1 - 1))" by simp
  have step: "cur = spec_next_generation ppl fams (spec_ancestors ppl fams root (nat (g - 1 - 1)))"
    unfolding cur by (subst nat_eq) simp
  with ne have "spec_ancestors ppl fams root (nat (g - 1 - 1)) \<noteq> []"
    by (auto simp: next_generation_Nil)
  with g le have "build_generations ppl fams root max_gen (g - 1)
      = Some (spec_ancestors ppl fams root (nat (g - 1 - 1)))"
    by (simp add: build_generations_populated spec_populated_def)
  with step show "\<exists>prev. build_generations ppl fams root max_gen (g - 1) = Some prev \<and>
                    cur = spec_next_generation ppl fams prev"
    by blast
qed

text \<open>The theorem at the example data.\<close>

theorem build_generations_contents_witness:
  "(1::int) \<le> 2 \<and>
   build_generations ex_people ex_families ''I1'' 2 1 = Some [''I1''] \<and>
   build_generations ex_people ex_families ''I1'' 2 2
     = Some (spec_next_generation ex_people ex_families [''I1''])"
proof -
  have two: "build_generations ex_people ex_families ''I1'' 2 2 = Some [''I2'', ''I3'']"
    by (simp add: ex_build_2)
  have le: "(1::int) \<le> 2" by simp
  note inst = build_generations_contents [OF le, of ex_people ex_families "''I1''"]
  from inst have one: "build_generations ex_people ex_families ''I1'' 2 1 = Some [''I1'']"
    by (rule conjunct1)
  from two
  have "\<exists>prev. build_generations ex_people ex_families ''I1'' 2 (2 - 1) = Some prev \<and>
           [''I2'', ''I3''] = spec_next_generation ex_people ex_families prev"
    by (intro conjunct2 [OF inst, rule_format]) simp
  with one two show ?thesis by simp
qed

text \<open>
  C10. For \<open>max_gen \<ge> 1\<close> the keys of the result are exactly \<open>1, \<dots>, k\<close> for some
  \<open>1 \<le> k \<le> max_gen\<close>, and every generation list of the result is non-empty.
\<close>

theorem build_generations_keys:
  assumes "1 \<le> max_gen"
  shows "\<exists>k. 1 \<le> k \<and> k \<le> max_gen \<and>
             dom (build_generations ppl fams root max_gen) = {1..k} \<and>
             (\<forall>g\<in>{1..k}. \<exists>cur. build_generations ppl fams root max_gen g = Some cur \<and> cur \<noteq> [])"
proof -
  let ?G = "build_generations ppl fams root max_gen"
  have G: "?G = spec_populated ppl fams root max_gen"
    using assms by (simp add: build_generations_populated max_def)
  have sub: "dom ?G \<subseteq> {1..max_gen}"
    by (auto simp: G spec_populated_def split: if_splits)
  then have fin: "finite (dom ?G)" by (rule finite_subset) simp
  have one: "1 \<in> dom ?G" using assms by (simp add: G spec_populated_def dom_def)
  define k where "k = Max (dom ?G)"
  have k_in: "k \<in> dom ?G" unfolding k_def using fin one by (intro Max_in) auto
  then have k_ne: "spec_ancestors ppl fams root (nat (k - 1)) \<noteq> []" and k1: "1 \<le> k"
    and km: "k \<le> max_gen"
    by (auto simp: G spec_populated_def split: if_splits)
  have below: "\<exists>cur. ?G g = Some cur \<and> cur \<noteq> []" if "g \<in> {1..k}" for g
  proof -
    from that have "nat (g - 1) \<le> nat (k - 1)" by (intro nat_mono) simp
    with k_ne have "spec_ancestors ppl fams root (nat (g - 1)) \<noteq> []"
      by (rule ancestors_nonempty_below)
    with that km show ?thesis by (simp add: G spec_populated_def)
  qed
  have "dom ?G = {1..k}"
  proof
    show "dom ?G \<subseteq> {1..k}"
    proof
      fix g assume g: "g \<in> dom ?G"
      then have "g \<le> k" unfolding k_def using fin by (intro Max_ge)
      moreover from g sub have "1 \<le> g" by auto
      ultimately show "g \<in> {1..k}" by simp
    qed
  next
    show "{1..k} \<subseteq> dom ?G" using below by blast
  qed
  with k1 km below show ?thesis by blast
qed

text \<open>The theorem at the example data.\<close>

theorem build_generations_keys_witness:
  "(1::int) \<le> 10 \<and>
   (\<exists>k. 1 \<le> k \<and> k \<le> 10 \<and>
      dom (build_generations ex_people ex_families ''I1'' 10) = {1..k} \<and>
      (\<forall>g\<in>{1..k}. \<exists>cur. build_generations ex_people ex_families ''I1'' 10 g = Some cur \<and> cur \<noteq> []))"
proof -
  have le: "(1::int) \<le> 10" by simp
  from build_generations_keys [OF le, of ex_people ex_families "''I1''"]
  show ?thesis by (intro conjI le)
qed

text \<open>
  C3. \<^verbatim>\<open>build_generations\<close> has no failing branch (the only subscript,
  \<^verbatim>\<open>people[person_id]\<close>, is guarded at line 156), so it returns a generation set for
  every input. Generation \<open>g\<close> is present exactly when \<open>1 \<le> g \<le> max 1 max_gen\<close> and no
  accumulator up to \<open>g\<close> is empty, and then holds that accumulator: the expansion stops
  at the first empty accumulator and only populated generations are returned. A root
  absent from the individuals mapping, or with an empty child-of list, gives the single
  generation \<open>[root]\<close> whatever \<open>max_gen\<close> is; and asking for more generations than
  the data has gives the same result as asking for the first empty one.
\<close>

theorem build_generations_total:
  "build_generations ppl fams root max_gen =
     (\<lambda>g. if 1 \<le> g \<and> g \<le> max 1 max_gen \<and> (\<forall>j < nat g. spec_ancestors ppl fams root j \<noteq> [])
          then Some (spec_ancestors ppl fams root (nat g - 1)) else None) \<and>
   (ppl root = None \<or> (\<exists>p. ppl root = Some p \<and> i_famc p = []) \<longrightarrow>
      build_generations ppl fams root max_gen = [1 \<mapsto> [root]]) \<and>
   (\<forall>n. spec_ancestors ppl fams root n = [] \<and> int n \<le> max_gen \<longrightarrow>
      build_generations ppl fams root max_gen = build_generations ppl fams root (int n))"
proof (intro conjI impI allI)
  show "build_generations ppl fams root max_gen =
     (\<lambda>g. if 1 \<le> g \<and> g \<le> max 1 max_gen \<and> (\<forall>j < nat g. spec_ancestors ppl fams root j \<noteq> [])
          then Some (spec_ancestors ppl fams root (nat g - 1)) else None)"
  proof
    fix g
    have "(\<forall>j < nat g. spec_ancestors ppl fams root j \<noteq> [])
            \<longleftrightarrow> spec_ancestors ppl fams root (nat g - 1) \<noteq> []" if "1 \<le> g"
    proof
      assume "\<forall>j < nat g. spec_ancestors ppl fams root j \<noteq> []"
      moreover from that have "nat g - 1 < nat g" by simp
      ultimately show "spec_ancestors ppl fams root (nat g - 1) \<noteq> []" by blast
    next
      assume ne: "spec_ancestors ppl fams root (nat g - 1) \<noteq> []"
      show "\<forall>j < nat g. spec_ancestors ppl fams root j \<noteq> []"
      proof (intro allI impI)
        fix j assume "j < nat g"
        then have "j \<le> nat g - 1" by simp
        with ne show "spec_ancestors ppl fams root j \<noteq> []"
          by (rule ancestors_nonempty_below)
      qed
    qed
    moreover have "nat (g - 1) = nat g - 1" by simp
    ultimately show "build_generations ppl fams root max_gen g =
      (if 1 \<le> g \<and> g \<le> max 1 max_gen \<and> (\<forall>j < nat g. spec_ancestors ppl fams root j \<noteq> [])
       then Some (spec_ancestors ppl fams root (nat g - 1)) else None)"
      by (simp add: build_generations_populated spec_populated_def)
  qed
next
  assume "ppl root = None \<or> (\<exists>p. ppl root = Some p \<and> i_famc p = [])"
  then have e: "spec_ancestors ppl fams root (Suc 0) = []"
    by (rule next_generation_root_empty)
  show "build_generations ppl fams root max_gen = [1 \<mapsto> [root]]"
  proof
    fix g
    show "build_generations ppl fams root max_gen g = [1 \<mapsto> [root]] g"
    proof (cases "g \<le> 1")
      case True
      then show ?thesis by (simp add: build_generations_populated spec_populated_def)
    next
      case False
      then have "Suc 0 \<le> nat (g - 1)" by simp
      with e have "spec_ancestors ppl fams root (nat (g - 1)) = []"
        by (rule ancestors_stay_empty)
      with False show ?thesis by (simp add: build_generations_populated spec_populated_def)
    qed
  qed
next
  fix n
  assume a: "spec_ancestors ppl fams root n = [] \<and> int n \<le> max_gen"
  then have "n \<noteq> 0" by (cases n) auto
  with a have "max 1 max_gen = max_gen" and "max 1 (int n) = int n" by simp_all
  with a show "build_generations ppl fams root max_gen = build_generations ppl fams root (int n)"
    by (simp add: build_generations_populated populated_cut)
qed

text \<open>The theorem at the example data.\<close>

theorem build_generations_total_witness:
  "ex_people ''I2'' = None \<and>
   build_generations ex_people ex_families ''I2'' 10 = [1 \<mapsto> [''I2'']] \<and>
   spec_ancestors ex_people ex_families ''I1'' 2 = [] \<and>
   build_generations ex_people ex_families ''I1'' 10
     = build_generations ex_people ex_families ''I1'' 2"
proof -
  have absent: "ex_people ''I2'' = None" by (simp add: ex_people_def)
  have empty: "spec_ancestors ex_people ex_families ''I1'' 2 = []"
    by (simp add: numeral_2_eq_2 spec_next_generation_def spec_person_parents_def
          spec_family_parents_def ex_people_def ex_families_def)
  note inst = build_generations_total [of ex_people ex_families _ 10]
  from inst [of "''I2''"]
  have "ex_people ''I2'' = None \<or> (\<exists>p. ex_people ''I2'' = Some p \<and> i_famc p = []) \<longrightarrow>
          build_generations ex_people ex_families ''I2'' 10 = [1 \<mapsto> [''I2'']]"
    by (rule conjunct1 [OF conjunct2])
  with absent have one: "build_generations ex_people ex_families ''I2'' 10 = [1 \<mapsto> [''I2'']]"
    by blast
  from inst [of "''I1''"]
  have "\<forall>n. spec_ancestors ex_people ex_families ''I1'' n = [] \<and> int n \<le> 10 \<longrightarrow>
          build_generations ex_people ex_families ''I1'' 10
            = build_generations ex_people ex_families ''I1'' (int n)"
    by (rule conjunct2 [OF conjunct2])
  from this [rule_format, of 2] empty
  have "build_generations ex_people ex_families ''I1'' 10
          = build_generations ex_people ex_families ''I1'' 2"
    by simp
  with absent one empty show ?thesis by simp
qed

section \<open>The parser\<close>

subsection \<open>No subscript raises\<close>

lemma upd_person_ctx:
  "current s = Some c \<Longrightarrow> people s c = Some p \<Longrightarrow>
     upd_person s f = Inr (s\<lparr>people := (people s)(c \<mapsto> f p)\<rparr>)"
  by (simp add: upd_person_def)

lemma upd_family_ctx:
  "current s = Some c \<Longrightarrow> families s c = Some fam \<Longrightarrow>
     upd_family s f = Inr (s\<lparr>families := (families s)(c \<mapsto> f fam)\<rparr>)"
  by (simp add: upd_family_def)

lemma upd_source_ctx:
  "current s = Some c \<Longrightarrow> sources s c = Some src \<Longrightarrow>
     upd_source s f = Inr (s\<lparr>sources := (sources s)(c \<mapsto> f src)\<rparr>)"
  by (simp add: upd_source_def)

lemma wf_new_record: "wf_state (new_record s tag data)"
  by (simp add: new_record_def wf_state_def Let_def)

lemma indi_line_wf:
  assumes "current_type s = Some INDI" and "wf_state s"
  shows "\<exists>s'. indi_line s tag data = Inr s' \<and> wf_state s'"
proof -
  from assms obtain c p where c: "current s = Some c" "people s c = Some p"
    by (auto simp: wf_state_def split: option.splits)
  show ?thesis
    using assms(1) c by (simp add: indi_line_def upd_person_ctx wf_state_def)
qed

lemma fam_line_wf:
  assumes "current_type s = Some FAM" and "wf_state s"
  shows "\<exists>s'. fam_line s tag data = Inr s' \<and> wf_state s'"
proof -
  from assms obtain c fam where c: "current s = Some c" "families s c = Some fam"
    by (auto simp: wf_state_def split: option.splits)
  show ?thesis
    using assms(1) c by (simp add: fam_line_def upd_family_ctx wf_state_def)
qed

lemma sour_line_wf:
  assumes "current_type s = Some SOUR" and "wf_state s"
  shows "\<exists>s'. sour_line s tag data = Inr s' \<and> wf_state s'"
proof -
  from assms obtain c src where c: "current s = Some c" "sources s c = Some src"
    by (auto simp: wf_state_def split: option.splits)
  show ?thesis
    using assms(1) c by (simp add: sour_line_def upd_source_ctx wf_state_def)
qed

lemma handle_wf:
  assumes "wf_state s"
  shows "\<exists>s'. handle s level tag data = Inr s' \<and> wf_state s'"
  using assms indi_line_wf [of s tag data] fam_line_wf [of s tag data]
    sour_line_wf [of s tag data]
  by (simp add: handle_def wf_new_record)

lemma process_line_wf:
  assumes "wf_state s"
  shows "\<exists>s'. process_line s line = Inr s' \<and> wf_state s'"
  using assms handle_wf by (auto simp: process_line_def split: option.splits)

lemma parse_loop_wf:
  "wf_state s \<Longrightarrow> \<exists>s'. parse_loop s ls = Inr s' \<and> wf_state s'"
proof (induction ls arbitrary: s)
  case Nil
  then show ?case by simp
next
  case (Cons l ls)
  from process_line_wf [OF Cons.prems, of l]
  obtain s1 where s1: "process_line s l = Inr s1" "wf_state s1" by blast
  with Cons.IH [of s1] show ?case by simp
qed

lemma wf_init_state: "wf_state init_state"
  by (simp add: wf_state_def init_state_def)

subsection \<open>Claims about failure\<close>

lemma process_line_skipped: "skipped line \<Longrightarrow> process_line s line = Inr s"
  by (simp add: process_line_def skipped_def)

lemma parse_loop_skip:
  "parse_loop s (filter (\<lambda>l. \<not> skipped l) ls) = parse_loop s ls"
  by (induction ls arbitrary: s) (simp_all add: process_line_skipped split: sum.splits)

text \<open>
  C1, as amended. The source has no \<^verbatim>\<open>MalformedRecordError\<close>: a line with fewer than
  two fields is skipped by the \<^verbatim>\<open>continue\<close> of line 58. \<^verbatim>\<open>parse_gedcom\<close> fails on
  no input text, and its loop gives on a list of lines what it gives on the list
  without the skipped lines.
\<close>

theorem parse_gedcom_never_fails:
  "(\<exists>r. parse_gedcom text = Inr r) \<and>
   parse_loop s ls = parse_loop s (filter (\<lambda>l. \<not> skipped l) ls)"
proof
  from parse_loop_wf [OF wf_init_state, of "file_lines text"]
  show "\<exists>r. parse_gedcom text = Inr r" by (auto simp: parse_gedcom_def)
next
  show "parse_loop s ls = parse_loop s (filter (\<lambda>l. \<not> skipped l) ls)"
    by (simp add: parse_loop_skip)
qed

subsection \<open>The root identifier\<close>

lemma upd_person_root: "upd_person s f = Inr s' \<Longrightarrow> root_id s' = root_id s"
  by (auto simp: upd_person_def split: option.splits)

lemma upd_family_root: "upd_family s f = Inr s' \<Longrightarrow> root_id s' = root_id s"
  by (auto simp: upd_family_def split: option.splits)

lemma upd_source_root: "upd_source s f = Inr s' \<Longrightarrow> root_id s' = root_id s"
  by (auto simp: upd_source_def split: option.splits)

lemma indi_line_root: "indi_line s tag data = Inr s' \<Longrightarrow> root_id s' = root_id s"
  by (auto simp: indi_line_def split: if_splits sum.splits dest: upd_person_root)

lemma fam_line_root: "fam_line s tag data = Inr s' \<Longrightarrow> root_id s' = root_id s"
  by (auto simp: fam_line_def split: if_splits sum.splits dest: upd_family_root)

lemma sour_line_root: "sour_line s tag data = Inr s' \<Longrightarrow> root_id s' = root_id s"
  by (auto simp: sour_line_def split: if_splits dest: upd_source_root)

lemma new_record_root:
  "root_id (new_record s tag data) =
     (if root_id s = None \<and> startswith_at tag \<and> data = ''INDI'' then Some (clean_id tag)
      else root_id s)"
  by (simp add: new_record_def Let_def)

lemma process_line_root:
  assumes "process_line s line = Inr s'"
  shows "root_id s' = (if root_id s = None \<and> opens ''INDI'' line then Some (line_id line)
                       else root_id s)"
proof (cases "split_line line")
  case None
  with assms show ?thesis by (simp add: process_line_def opens_def)
next
  case (Some a)
  obtain level tag data where a: "a = (level, tag, data)" by (cases a)
  show ?thesis
  proof (cases "level = ''0''")
    case True
    with assms Some a show ?thesis
      by (auto simp: process_line_def handle_def new_record_root opens_def line_id_def)
  next
    case False
    with assms Some a have "root_id s' = root_id s"
      by (auto simp: process_line_def handle_def split: if_splits
               dest: indi_line_root fam_line_root sour_line_root)
    with False Some a show ?thesis by (simp add: opens_def)
  qed
qed

lemma parse_loop_root:
  "parse_loop s ls = Inr s' \<Longrightarrow>
     root_id s' = (case root_id s of Some r \<Rightarrow> Some r | None \<Rightarrow> spec_first_individual ls)"
proof (induction ls arbitrary: s)
  case Nil
  then show ?case by (simp add: spec_first_individual_def split: option.splits)
next
  case (Cons l ls)
  then obtain s1 where s1: "process_line s l = Inr s1" and rest: "parse_loop s1 ls = Inr s'"
    by (auto split: sum.splits)
  from Cons.IH [OF rest] process_line_root [OF s1] show ?case
    by (auto simp: spec_first_individual_def split: option.splits if_splits)
qed

text \<open>
  C7. For every input text the root identifier returned is the stripped identifier of
  the first line that opens an individual record, whatever family or source records
  come before or after it, and is absent when no line opens an individual record.
\<close>

theorem parse_gedcom_root:
  "\<exists>P F S. parse_gedcom text = Inr (P, F, S, spec_first_individual (file_lines text))"
proof -
  from parse_loop_wf [OF wf_init_state, of "file_lines text"]
  obtain s' where s': "parse_loop init_state (file_lines text) = Inr s'" by blast
  from parse_loop_root [OF s'] have "root_id s' = spec_first_individual (file_lines text)"
    by (simp add: init_state_def)
  with s' show ?thesis by (simp add: parse_gedcom_def)
qed

subsection \<open>Records are kept\<close>

lemma individual_grows_refl: "individual_grows p p"
  by (simp add: individual_grows_def)

lemma individual_grows_trans:
  "individual_grows p q \<Longrightarrow> individual_grows q r \<Longrightarrow> individual_grows p r"
  by (auto simp: individual_grows_def intro: prefix_order.trans)

lemma family_grows_refl: "family_grows p p"
  by (simp add: family_grows_def)

lemma family_grows_trans:
  "family_grows p q \<Longrightarrow> family_grows q r \<Longrightarrow> family_grows p r"
  by (auto simp: family_grows_def intro: prefix_order.trans)

lemma source_kept_trans: "source_kept p q \<Longrightarrow> source_kept q r \<Longrightarrow> source_kept p r"
  by (simp add: source_kept_def)

lemma upd_person_Inr:
  "upd_person s f = Inr s' \<Longrightarrow>
     \<exists>c p0. current s = Some c \<and> people s c = Some p0 \<and> s' = s\<lparr>people := (people s)(c \<mapsto> f p0)\<rparr>"
  by (auto simp: upd_person_def split: option.splits)

lemma upd_family_Inr:
  "upd_family s f = Inr s' \<Longrightarrow>
     \<exists>c p0. current s = Some c \<and> families s c = Some p0 \<and>
        s' = s\<lparr>families := (families s)(c \<mapsto> f p0)\<rparr>"
  by (auto simp: upd_family_def split: option.splits)

lemma upd_source_Inr:
  "upd_source s f = Inr s' \<Longrightarrow>
     \<exists>c p0. current s = Some c \<and> sources s c = Some p0 \<and>
        s' = s\<lparr>sources := (sources s)(c \<mapsto> f p0)\<rparr>"
  by (auto simp: upd_source_def split: option.splits)

lemma indi_line_people:
  assumes "indi_line s tag data = Inr s'" and "people s k = Some p"
  shows "\<exists>p'. people s' k = Some p' \<and> individual_grows p p'"
  using assms
  by (auto simp: indi_line_def individual_grows_def split: if_splits sum.splits
           dest!: upd_person_Inr)

lemma indi_line_others:
  "indi_line s tag data = Inr s' \<Longrightarrow> families s' = families s \<and> sources s' = sources s"
  by (auto simp: indi_line_def split: if_splits sum.splits dest!: upd_person_Inr)

lemma fam_line_families:
  assumes "fam_line s tag data = Inr s'" and "families s k = Some p"
  shows "\<exists>p'. families s' k = Some p' \<and> family_grows p p'"
  using assms
  by (auto simp: fam_line_def family_grows_def split: if_splits sum.splits
           dest!: upd_family_Inr)

lemma fam_line_others:
  "fam_line s tag data = Inr s' \<Longrightarrow> people s' = people s \<and> sources s' = sources s"
  by (auto simp: fam_line_def split: if_splits sum.splits dest!: upd_family_Inr)

lemma sour_line_sources:
  assumes "sour_line s tag data = Inr s'" and "sources s k = Some p"
  shows "\<exists>p'. sources s' k = Some p' \<and> source_kept p p'"
  using assms
  by (auto simp: sour_line_def source_kept_def split: if_splits dest!: upd_source_Inr)

lemma sour_line_others:
  "sour_line s tag data = Inr s' \<Longrightarrow> people s' = people s \<and> families s' = families s"
  by (auto simp: sour_line_def split: if_splits dest!: upd_source_Inr)

lemma new_record_people:
  "people (new_record s tag data) k =
     (if startswith_at tag \<and> data = ''INDI'' \<and> clean_id tag = k
      then Some \<lparr>i_id = k, i_name = [], i_events = Map.empty, i_sources = [], i_famc = [],
                 i_fams = []\<rparr>
      else people s k)"
  by (simp add: new_record_def Let_def)

lemma new_record_families:
  "families (new_record s tag data) k =
     (if startswith_at tag \<and> data = ''FAM'' \<and> clean_id tag = k
      then Some \<lparr>f_id = k, f_husb = [], f_wife = [], f_chil = [], f_events = Map.empty\<rparr>
      else families s k)"
  by (simp add: new_record_def Let_def)

lemma new_record_sources:
  "sources (new_record s tag data) k =
     (if startswith_at tag \<and> data = ''SOUR'' \<and> clean_id tag = k
      then Some \<lparr>s_id = k, s_title = [], s_author = [], s_publ = [], s_text = []\<rparr>
      else sources s k)"
  by (simp add: new_record_def Let_def)

text \<open>The branches of the loop body.\<close>

lemma handle_Inr:
  "handle s level tag data = Inr s' \<Longrightarrow>
     (level = ''0'' \<and> s' = new_record s tag data) \<or>
     (level \<noteq> ''0'' \<and>
        (indi_line s tag data = Inr s' \<or> fam_line s tag data = Inr s' \<or>
         sour_line s tag data = Inr s' \<or> s' = s))"
  unfolding handle_def by (cases "level = ''0''") (simp_all split: if_splits)

lemma handle_cases:
  assumes "handle s level tag data = Inr s'"
  obtains (top) "level = ''0''" "s' = new_record s tag data"
    | (indi) "level \<noteq> ''0''" "indi_line s tag data = Inr s'"
    | (fam) "level \<noteq> ''0''" "fam_line s tag data = Inr s'"
    | (sour) "level \<noteq> ''0''" "sour_line s tag data = Inr s'"
    | (none) "level \<noteq> ''0''" "s' = s"
  using handle_Inr [OF assms] by blast

lemma process_line_cases:
  assumes "process_line s line = Inr s'"
  obtains (skip) "split_line line = None" "s' = s"
    | (fields) level tag data where "split_line line = Some (level, tag, data)"
        "handle s level tag data = Inr s'"
  using assms by (auto simp: process_line_def split: option.splits)

text \<open>One line: a record survives, grown, unless the line opens its identifier
  again.\<close>

lemma process_line_people:
  assumes "process_line s line = Inr s'" and "people s k = Some p"
    and "\<not> reopens ''INDI'' k line"
  shows "\<exists>p'. people s' k = Some p' \<and> individual_grows p p'"
  using assms(1)
proof (cases rule: process_line_cases)
  case skip
  with assms(2) show ?thesis by (simp add: individual_grows_refl)
next
  case (fields level tag data)
  from fields(2) show ?thesis
  proof (cases rule: handle_cases)
    case top
    with assms(2,3) fields(1) show ?thesis
      by (auto simp: new_record_people reopens_def opens_def line_id_def individual_grows_refl)
  next
    case indi
    with assms(2) show ?thesis by (auto dest: indi_line_people)
  next
    case fam
    with assms(2) show ?thesis by (auto dest: fam_line_others simp: individual_grows_refl)
  next
    case sour
    with assms(2) show ?thesis by (auto dest: sour_line_others simp: individual_grows_refl)
  next
    case none
    with assms(2) show ?thesis by (simp add: individual_grows_refl)
  qed
qed

lemma process_line_families:
  assumes "process_line s line = Inr s'" and "families s k = Some p"
    and "\<not> reopens ''FAM'' k line"
  shows "\<exists>p'. families s' k = Some p' \<and> family_grows p p'"
  using assms(1)
proof (cases rule: process_line_cases)
  case skip
  with assms(2) show ?thesis by (simp add: family_grows_refl)
next
  case (fields level tag data)
  from fields(2) show ?thesis
  proof (cases rule: handle_cases)
    case top
    with assms(2,3) fields(1) show ?thesis
      by (auto simp: new_record_families reopens_def opens_def line_id_def family_grows_refl)
  next
    case indi
    with assms(2) show ?thesis by (auto dest: indi_line_others simp: family_grows_refl)
  next
    case fam
    with assms(2) show ?thesis by (auto dest: fam_line_families)
  next
    case sour
    with assms(2) show ?thesis by (auto dest: sour_line_others simp: family_grows_refl)
  next
    case none
    with assms(2) show ?thesis by (simp add: family_grows_refl)
  qed
qed

lemma process_line_sources:
  assumes "process_line s line = Inr s'" and "sources s k = Some p"
    and "\<not> reopens ''SOUR'' k line"
  shows "\<exists>p'. sources s' k = Some p' \<and> source_kept p p'"
  using assms(1)
proof (cases rule: process_line_cases)
  case skip
  with assms(2) show ?thesis by (simp add: source_kept_def)
next
  case (fields level tag data)
  from fields(2) show ?thesis
  proof (cases rule: handle_cases)
    case top
    with assms(2,3) fields(1) show ?thesis
      by (auto simp: new_record_sources reopens_def opens_def line_id_def source_kept_def)
  next
    case indi
    with assms(2) show ?thesis by (auto dest: indi_line_others simp: source_kept_def)
  next
    case fam
    with assms(2) show ?thesis by (auto dest: fam_line_others simp: source_kept_def)
  next
    case sour
    with assms(2) show ?thesis by (auto dest: sour_line_sources)
  next
    case none
    with assms(2) show ?thesis by (simp add: source_kept_def)
  qed
qed

text \<open>One line never removes a key.\<close>

lemma process_line_dom:
  assumes "process_line s line = Inr s'"
  shows "dom (people s) \<subseteq> dom (people s') \<and> dom (families s) \<subseteq> dom (families s') \<and>
         dom (sources s) \<subseteq> dom (sources s')"
proof -
  have "people s' k \<noteq> None" if "people s k \<noteq> None" for k
  proof (cases "reopens ''INDI'' k line")
    case True
    with assms show ?thesis
      by (auto simp: reopens_def opens_def line_id_def process_line_def handle_def
            new_record_people split: option.splits)
  next
    case False
    with that process_line_people [OF assms] show ?thesis by fastforce
  qed
  moreover have "families s' k \<noteq> None" if "families s k \<noteq> None" for k
  proof (cases "reopens ''FAM'' k line")
    case True
    with assms show ?thesis
      by (auto simp: reopens_def opens_def line_id_def process_line_def handle_def
            new_record_families split: option.splits)
  next
    case False
    with that process_line_families [OF assms] show ?thesis by fastforce
  qed
  moreover have "sources s' k \<noteq> None" if "sources s k \<noteq> None" for k
  proof (cases "reopens ''SOUR'' k line")
    case True
    with assms show ?thesis
      by (auto simp: reopens_def opens_def line_id_def process_line_def handle_def
            new_record_sources split: option.splits)
  next
    case False
    with that process_line_sources [OF assms] show ?thesis by fastforce
  qed
  ultimately show ?thesis by (auto simp: dom_def)
qed

lemma parse_loop_dom:
  "parse_loop s ls = Inr s' \<Longrightarrow>
     dom (people s) \<subseteq> dom (people s') \<and> dom (families s) \<subseteq> dom (families s') \<and>
     dom (sources s) \<subseteq> dom (sources s')"
proof (induction ls arbitrary: s)
  case Nil
  then show ?case by simp
next
  case (Cons l ls)
  then obtain s1 where s1: "process_line s l = Inr s1" and rest: "parse_loop s1 ls = Inr s'"
    by (auto split: sum.splits)
  from process_line_dom [OF s1] Cons.IH [OF rest] show ?case by blast
qed

lemma parse_loop_people:
  "parse_loop s ls = Inr s' \<Longrightarrow> people s k = Some p \<Longrightarrow>
   \<not> list_ex (reopens ''INDI'' k) ls \<Longrightarrow>
     \<exists>p'. people s' k = Some p' \<and> individual_grows p p'"
proof (induction ls arbitrary: s p)
  case Nil
  then show ?case by (simp add: individual_grows_refl)
next
  case (Cons l ls)
  then obtain s1 where s1: "process_line s l = Inr s1" and rest: "parse_loop s1 ls = Inr s'"
    by (auto split: sum.splits)
  from Cons.prems have "\<not> reopens ''INDI'' k l" and later: "\<not> list_ex (reopens ''INDI'' k) ls"
    by simp_all
  with process_line_people [OF s1 Cons.prems(2)]
  obtain p1 where p1: "people s1 k = Some p1" "individual_grows p p1" by blast
  from Cons.IH [OF rest p1(1) later] p1(2) show ?case
    by (blast intro: individual_grows_trans)
qed

lemma parse_loop_families:
  "parse_loop s ls = Inr s' \<Longrightarrow> families s k = Some p \<Longrightarrow>
   \<not> list_ex (reopens ''FAM'' k) ls \<Longrightarrow>
     \<exists>p'. families s' k = Some p' \<and> family_grows p p'"
proof (induction ls arbitrary: s p)
  case Nil
  then show ?case by (simp add: family_grows_refl)
next
  case (Cons l ls)
  then obtain s1 where s1: "process_line s l = Inr s1" and rest: "parse_loop s1 ls = Inr s'"
    by (auto split: sum.splits)
  from Cons.prems have "\<not> reopens ''FAM'' k l" and later: "\<not> list_ex (reopens ''FAM'' k) ls"
    by simp_all
  with process_line_families [OF s1 Cons.prems(2)]
  obtain p1 where p1: "families s1 k = Some p1" "family_grows p p1" by blast
  from Cons.IH [OF rest p1(1) later] p1(2) show ?case
    by (blast intro: family_grows_trans)
qed

lemma parse_loop_sources:
  "parse_loop s ls = Inr s' \<Longrightarrow> sources s k = Some p \<Longrightarrow>
   \<not> list_ex (reopens ''SOUR'' k) ls \<Longrightarrow>
     \<exists>p'. sources s' k = Some p' \<and> source_kept p p'"
proof (induction ls arbitrary: s p)
  case Nil
  then show ?case by (simp add: source_kept_def)
next
  case (Cons l ls)
  then obtain s1 where s1: "process_line s l = Inr s1" and rest: "parse_loop s1 ls = Inr s'"
    by (auto split: sum.splits)
  from Cons.prems have "\<not> reopens ''SOUR'' k l" and later: "\<not> list_ex (reopens ''SOUR'' k) ls"
    by simp_all
  with process_line_sources [OF s1 Cons.prems(2)]
  obtain p1 where p1: "sources s1 k = Some p1" "source_kept p p1" by blast
  from Cons.IH [OF rest p1(1) later] p1(2) show ?case
    by (blast intro: source_kept_trans)
qed

text \<open>
  C6, as amended. From a state of the parser the loop returns, and no identifier is
  ever removed from the individuals, families or sources mapping. A record present
  before some lines is present after them with its lists only appended to, the keys of
  its event map kept and its identifier unchanged, provided none of these lines is a
  level-0 line that opens a record of the same kind under the same identifier: line 71
  (75, 79) stores a fresh record then.
\<close>

theorem records_only_grow:
  assumes "wf_state s"
  shows "\<exists>s'. parse_loop s ls = Inr s' \<and>
           dom (people s) \<subseteq> dom (people s') \<and> dom (families s) \<subseteq> dom (families s') \<and>
           dom (sources s) \<subseteq> dom (sources s') \<and>
           (\<forall>k p. people s k = Some p \<and> \<not> list_ex (reopens ''INDI'' k) ls \<longrightarrow>
              (\<exists>p'. people s' k = Some p' \<and> individual_grows p p')) \<and>
           (\<forall>k fam. families s k = Some fam \<and> \<not> list_ex (reopens ''FAM'' k) ls \<longrightarrow>
              (\<exists>fam'. families s' k = Some fam' \<and> family_grows fam fam')) \<and>
           (\<forall>k src. sources s k = Some src \<and> \<not> list_ex (reopens ''SOUR'' k) ls \<longrightarrow>
              (\<exists>src'. sources s' k = Some src' \<and> source_kept src src'))"
proof -
  from parse_loop_wf [OF assms, of ls]
  obtain s' where s': "parse_loop s ls = Inr s'" by blast
  from parse_loop_dom [OF s'] parse_loop_people [OF s'] parse_loop_families [OF s']
    parse_loop_sources [OF s'] s'
  show ?thesis by blast
qed

subsection \<open>Lines inside an individual record\<close>

lemma parse_loop_append:
  "parse_loop s (xs @ ys) =
     (case parse_loop s xs of Inl e \<Rightarrow> Inl e | Inr s1 \<Rightarrow> parse_loop s1 ys)"
  by (induction xs arbitrary: s) (simp_all split: sum.splits)

lemma process_line_indi:
  assumes "split_line line = Some (level, tag, data)" and "level \<noteq> ''0''"
    and "current_type s = Some INDI"
  shows "process_line s line = indi_line s tag data"
  using assms by (simp add: process_line_def handle_def)

lemma process_line_fam:
  assumes "split_line line = Some (level, tag, data)" and "level \<noteq> ''0''"
    and "current_type s = Some FAM"
  shows "process_line s line = fam_line s tag data"
  using assms by (simp add: process_line_def handle_def)

text \<open>
  C5. While an individual record is being parsed, a PLAC line sets \<open>birth_place\<close>
  exactly when \<open>birth_date\<close> is recorded and \<open>birth_place\<close> is not; otherwise it sets
  \<open>death_place\<close> exactly when \<open>death_date\<close> is recorded and \<open>death_place\<close> is not; in
  every other case the value is dropped and the state is left as it was.
\<close>

theorem plac_fills_first_empty_slot:
  assumes "current_type s = Some INDI" and "current s = Some c" and "people s c = Some p"
    and "split_line line = Some (level, ''PLAC'', data)" and "level \<noteq> ''0''"
  shows "(i_events p ''birth_date'' \<noteq> None \<and> i_events p ''birth_place'' = None \<longrightarrow>
            process_line s line =
              Inr (s\<lparr>people := (people s)(c \<mapsto>
                     p\<lparr>i_events := (i_events p)(''birth_place'' \<mapsto> data)\<rparr>)\<rparr>)) \<and>
         (\<not> (i_events p ''birth_date'' \<noteq> None \<and> i_events p ''birth_place'' = None) \<and>
          i_events p ''death_date'' \<noteq> None \<and> i_events p ''death_place'' = None \<longrightarrow>
            process_line s line =
              Inr (s\<lparr>people := (people s)(c \<mapsto>
                     p\<lparr>i_events := (i_events p)(''death_place'' \<mapsto> data)\<rparr>)\<rparr>)) \<and>
         (\<not> (i_events p ''birth_date'' \<noteq> None \<and> i_events p ''birth_place'' = None) \<and>
          \<not> (i_events p ''death_date'' \<noteq> None \<and> i_events p ''death_place'' = None) \<longrightarrow>
            process_line s line = Inr s)"
proof -
  have same: "s\<lparr>people := (people s)(c \<mapsto> p)\<rparr> = s"
    using assms(3) by (simp add: map_upd_triv)
  have "process_line s line = indi_line s ''PLAC'' data"
    using assms(4,5,1) by (rule process_line_indi)
  then have eq: "process_line s line =
      Inr (s\<lparr>people := (people s)(c \<mapsto>
        if i_events p ''birth_date'' \<noteq> None \<and> i_events p ''birth_place'' = None
        then p\<lparr>i_events := (i_events p)(''birth_place'' \<mapsto> data)\<rparr>
        else if i_events p ''death_date'' \<noteq> None \<and> i_events p ''death_place'' = None
        then p\<lparr>i_events := (i_events p)(''death_place'' \<mapsto> data)\<rparr>
        else p)\<rparr>)"
    using assms(2,3) by (simp only: indi_line_def upd_person_ctx) simp
  show ?thesis
  proof (intro conjI impI)
    assume "i_events p ''birth_date'' \<noteq> None \<and> i_events p ''birth_place'' = None"
    then show "process_line s line =
              Inr (s\<lparr>people := (people s)(c \<mapsto>
                     p\<lparr>i_events := (i_events p)(''birth_place'' \<mapsto> data)\<rparr>)\<rparr>)"
      by (simp add: eq)
  next
    assume a: "\<not> (i_events p ''birth_date'' \<noteq> None \<and> i_events p ''birth_place'' = None) \<and>
          i_events p ''death_date'' \<noteq> None \<and> i_events p ''death_place'' = None"
    then have "\<not> (i_events p ''birth_date'' \<noteq> None \<and> i_events p ''birth_place'' = None)"
      and "i_events p ''death_date'' \<noteq> None \<and> i_events p ''death_place'' = None"
      by blast+
    then show "process_line s line =
              Inr (s\<lparr>people := (people s)(c \<mapsto>
                     p\<lparr>i_events := (i_events p)(''death_place'' \<mapsto> data)\<rparr>)\<rparr>)"
      by (auto simp: eq)
  next
    assume a: "\<not> (i_events p ''birth_date'' \<noteq> None \<and> i_events p ''birth_place'' = None) \<and>
          \<not> (i_events p ''death_date'' \<noteq> None \<and> i_events p ''death_place'' = None)"
    then have "\<not> (i_events p ''birth_date'' \<noteq> None \<and> i_events p ''birth_place'' = None)"
      and "\<not> (i_events p ''death_date'' \<noteq> None \<and> i_events p ''death_place'' = None)"
      by blast+
    then show "process_line s line = Inr s"
      by (auto simp: eq same)
  qed
qed

text \<open>Lines that set no flag keep the flags and both dates of the current individual;
  a DATE line among them does so when no flag is pending.\<close>

lemma calm_line_dates:
  assumes "current_type s = Some INDI" and "current s = Some c" and "people s c = Some p"
    and "calm line" and "quiet line \<or> (\<not> in_birth s \<and> \<not> in_death s)"
  shows "\<exists>s' p'. process_line s line = Inr s' \<and>
           current_type s' = Some INDI \<and> current s' = Some c \<and> people s' c = Some p' \<and>
           in_birth s' = in_birth s \<and> in_death s' = in_death s \<and>
           i_events p' ''birth_date'' = i_events p ''birth_date'' \<and>
           i_events p' ''death_date'' = i_events p ''death_date''"
proof (cases "split_line line")
  case None
  with assms(1-3) show ?thesis by (simp add: process_line_def)
next
  case (Some a)
  obtain level tag data where a: "a = (level, tag, data)" by (cases a)
  from assms(4) Some a have lv: "level \<noteq> ''0''" and tg: "tag \<noteq> ''BIRT''" "tag \<noteq> ''DEAT''"
    by (simp_all add: calm_def)
  from Some a lv assms(1) have eq: "process_line s line = indi_line s tag data"
    by (simp add: process_line_indi)
  show ?thesis
  proof (cases "tag = ''DATE''")
    case True
    with assms(5) Some a have "\<not> in_birth s \<and> \<not> in_death s" by (simp add: quiet_def)
    with True assms(1-3) show ?thesis by (simp add: eq indi_line_def)
  next
    case False
    with tg assms(1-3) show ?thesis by (simp add: eq indi_line_def upd_person_ctx)
  qed
qed

lemma calm_lines_dates:
  assumes "current_type s = Some INDI" and "current s = Some c" and "people s c = Some p"
    and "list_all calm ls" and "list_all quiet ls \<or> (\<not> in_birth s \<and> \<not> in_death s)"
  shows "\<exists>s' p'. parse_loop s ls = Inr s' \<and>
           current_type s' = Some INDI \<and> current s' = Some c \<and> people s' c = Some p' \<and>
           in_birth s' = in_birth s \<and> in_death s' = in_death s \<and>
           i_events p' ''birth_date'' = i_events p ''birth_date'' \<and>
           i_events p' ''death_date'' = i_events p ''death_date''"
  using assms
proof (induction ls arbitrary: s p)
  case Nil
  then show ?case by simp
next
  case (Cons l ls)
  from Cons.prems have l: "calm l" "quiet l \<or> (\<not> in_birth s \<and> \<not> in_death s)" by auto
  from calm_line_dates [OF Cons.prems(1-3) l]
  obtain s1 p1 where s1: "process_line s l = Inr s1" "current_type s1 = Some INDI"
      "current s1 = Some c" "people s1 c = Some p1" "in_birth s1 = in_birth s"
      "in_death s1 = in_death s"
      "i_events p1 ''birth_date'' = i_events p ''birth_date''"
      "i_events p1 ''death_date'' = i_events p ''death_date''"
    by blast
  from Cons.prems s1(5,6)
  have rest: "list_all calm ls" "list_all quiet ls \<or> (\<not> in_birth s1 \<and> \<not> in_death s1)"
    by auto
  from Cons.IH [OF s1(2-4) rest] s1 show ?case by auto
qed

text \<open>Where the one-shot reading of DATE holds: when no death date is pending, after
  BIRT, then lines without BIRT, DEAT or DATE, then the first DATE, then lines without
  BIRT or DEAT, the first DATE is the birth date, later DATE lines are discarded and the
  death date is the one from before. The same holds for DEAT when no birth date is
  pending.\<close>

lemma birt_date_one_shot:
  assumes ctx: "current_type s = Some INDI" "current s = Some c" "people s c = Some p"
    and other: "\<not> in_death s"
    and ev: "split_line el = Some (le, ''BIRT'', x)" "le \<noteq> ''0''"
    and mid: "list_all quiet mid"
    and dl: "split_line dl = Some (ld, ''DATE'', v)" "ld \<noteq> ''0''"
    and rest: "list_all calm rest"
  shows "\<exists>s' p'. parse_loop s (el # mid @ dl # rest) = Inr s' \<and> people s' c = Some p' \<and>
           i_events p' ''birth_date'' = Some v \<and>
           i_events p' ''death_date'' = i_events p ''death_date'' \<and>
           \<not> in_birth s' \<and> \<not> in_death s'"
proof -
  let ?s1 = "s\<lparr>in_birth := True\<rparr>"
  have e1: "process_line s el = Inr ?s1"
    using ev ctx(1) by (simp add: process_line_indi indi_line_def)
  from mid have mid': "list_all calm mid" by (induction mid) (auto simp: calm_def quiet_def split: option.splits)
  have "\<exists>s' p'. parse_loop ?s1 mid = Inr s' \<and>
           current_type s' = Some INDI \<and> current s' = Some c \<and> people s' c = Some p' \<and>
           in_birth s' = in_birth ?s1 \<and> in_death s' = in_death ?s1 \<and>
           i_events p' ''birth_date'' = i_events p ''birth_date'' \<and>
           i_events p' ''death_date'' = i_events p ''death_date''"
    using ctx mid mid' by (intro calm_lines_dates) simp_all
  then obtain s2 p2 where s2: "parse_loop ?s1 mid = Inr s2" "current_type s2 = Some INDI"
      "current s2 = Some c" "people s2 c = Some p2" "in_birth s2" "\<not> in_death s2"
      "i_events p2 ''death_date'' = i_events p ''death_date''"
    using other by auto
  let ?p3 = "p2\<lparr>i_events := (i_events p2)(''birth_date'' \<mapsto> v)\<rparr>"
  let ?s3 = "s2\<lparr>people := (people s2)(c \<mapsto> ?p3), in_birth := False\<rparr>"
  have e3: "process_line s2 dl = Inr ?s3"
    using dl s2 by (simp add: process_line_indi indi_line_def upd_person_ctx)
  have "\<exists>s' p'. parse_loop ?s3 rest = Inr s' \<and>
           current_type s' = Some INDI \<and> current s' = Some c \<and> people s' c = Some p' \<and>
           in_birth s' = in_birth ?s3 \<and> in_death s' = in_death ?s3 \<and>
           i_events p' ''birth_date'' = i_events ?p3 ''birth_date'' \<and>
           i_events p' ''death_date'' = i_events ?p3 ''death_date''"
    using s2 rest by (intro calm_lines_dates) simp_all
  then obtain s4 p4 where s4: "parse_loop ?s3 rest = Inr s4" "people s4 c = Some p4"
      "\<not> in_birth s4" "\<not> in_death s4" "i_events p4 ''birth_date'' = Some v"
      "i_events p4 ''death_date'' = i_events p2 ''death_date''"
    using s2(6) by auto
  have "parse_loop s (el # mid @ dl # rest) = Inr s4"
    by (simp add: e1 parse_loop_append s2(1) e3 s4(1))
  with s4 s2(7) show ?thesis by simp
qed

lemma deat_date_one_shot:
  assumes ctx: "current_type s = Some INDI" "current s = Some c" "people s c = Some p"
    and other: "\<not> in_birth s"
    and ev: "split_line el = Some (le, ''DEAT'', x)" "le \<noteq> ''0''"
    and mid: "list_all quiet mid"
    and dl: "split_line dl = Some (ld, ''DATE'', v)" "ld \<noteq> ''0''"
    and rest: "list_all calm rest"
  shows "\<exists>s' p'. parse_loop s (el # mid @ dl # rest) = Inr s' \<and> people s' c = Some p' \<and>
           i_events p' ''death_date'' = Some v \<and>
           i_events p' ''birth_date'' = i_events p ''birth_date'' \<and>
           \<not> in_birth s' \<and> \<not> in_death s'"
proof -
  let ?s1 = "s\<lparr>in_death := True\<rparr>"
  have e1: "process_line s el = Inr ?s1"
    using ev ctx(1) by (simp add: process_line_indi indi_line_def)
  from mid have mid': "list_all calm mid" by (induction mid) (auto simp: calm_def quiet_def split: option.splits)
  have "\<exists>s' p'. parse_loop ?s1 mid = Inr s' \<and>
           current_type s' = Some INDI \<and> current s' = Some c \<and> people s' c = Some p' \<and>
           in_birth s' = in_birth ?s1 \<and> in_death s' = in_death ?s1 \<and>
           i_events p' ''birth_date'' = i_events p ''birth_date'' \<and>
           i_events p' ''death_date'' = i_events p ''death_date''"
    using ctx mid mid' by (intro calm_lines_dates) simp_all
  then obtain s2 p2 where s2: "parse_loop ?s1 mid = Inr s2" "current_type s2 = Some INDI"
      "current s2 = Some c" "people s2 c = Some p2" "\<not> in_birth s2" "in_death s2"
      "i_events p2 ''birth_date'' = i_events p ''birth_date''"
    using other by auto
  let ?p3 = "p2\<lparr>i_events := (i_events p2)(''death_date'' \<mapsto> v)\<rparr>"
  let ?s3 = "s2\<lparr>people := (people s2)(c \<mapsto> ?p3), in_death := False\<rparr>"
  have e3: "process_line s2 dl = Inr ?s3"
    using dl s2 by (simp add: process_line_indi indi_line_def upd_person_ctx)
  have "\<exists>s' p'. parse_loop ?s3 rest = Inr s' \<and>
           current_type s' = Some INDI \<and> current s' = Some c \<and> people s' c = Some p' \<and>
           in_birth s' = in_birth ?s3 \<and> in_death s' = in_death ?s3 \<and>
           i_events p' ''birth_date'' = i_events ?p3 ''birth_date'' \<and>
           i_events p' ''death_date'' = i_events ?p3 ''death_date''"
    using s2 rest by (intro calm_lines_dates) simp_all
  then obtain s4 p4 where s4: "parse_loop ?s3 rest = Inr s4" "people s4 c = Some p4"
      "\<not> in_birth s4" "\<not> in_death s4" "i_events p4 ''death_date'' = Some v"
      "i_events p4 ''birth_date'' = i_events p2 ''birth_date''"
    using s2(5) by auto
  have "parse_loop s (el # mid @ dl # rest) = Inr s4"
    by (simp add: e1 parse_loop_append s2(1) e3 s4(1))
  with s4 s2(7) show ?thesis by simp
qed

subsection \<open>Identifier normalisation\<close>

lemma strip_with_idem: "strip_with P (strip_with P s) = strip_with P s"
proof -
  define t where "t = dropWhile P s"
  define u where "u = dropWhile P (rev t)"
  have strip: "strip_with P s = rev u" by (simp add: strip_with_def t_def u_def)
  have front: "dropWhile P (rev u) = rev u"
  proof (cases "u = []")
    case True
    then show ?thesis by simp
  next
    case False
    have split: "rev t = takeWhile P (rev t) @ u" by (simp add: u_def)
    with False have "last (rev t) = last u" by (metis last_appendR)
    moreover from split False have ne: "t \<noteq> []" by auto
    ultimately have "last u = hd t" by (simp add: last_rev)
    moreover from ne have "\<not> P (hd t)" unfolding t_def by (rule hd_dropWhile)
    ultimately have "\<not> P (hd (rev u))" using False by (simp add: hd_rev)
    then show ?thesis by (simp add: dropWhile_eq_self_iff)
  qed
  have rear: "dropWhile P u = u" by (simp add: u_def)
  show ?thesis unfolding strip by (simp add: strip_with_def front rear)
qed

lemma clean_id_idem: "clean_id (clean_id t) = clean_id t"
  by (simp add: clean_id_def strip_with_idem)

lemma process_line_opens:
  assumes "opens ''INDI'' l" and "process_line s l = Inr s1"
  shows "people s1 (line_id l) \<noteq> None"
  using assms
  by (auto simp: opens_def line_id_def process_line_def handle_def new_record_people
           split: option.splits)

lemma opened_present:
  "parse_loop s ls = Inr s' \<Longrightarrow> l \<in> set ls \<Longrightarrow> opens ''INDI'' l \<Longrightarrow>
     people s' (line_id l) \<noteq> None"
proof (induction ls arbitrary: s)
  case Nil
  then show ?case by simp
next
  case (Cons x xs)
  then obtain s1 where s1: "process_line s x = Inr s1" and rest: "parse_loop s1 xs = Inr s'"
    by (auto split: sum.splits)
  show ?case
  proof (cases "l = x")
    case True
    with Cons.prems(3) s1 have "people s1 (line_id l) \<noteq> None"
      by (auto dest: process_line_opens)
    with parse_loop_dom [OF rest] show ?thesis by (auto simp: dom_def)
  next
    case False
    with Cons.prems(2) have "l \<in> set xs" by simp
    with Cons.IH [OF rest] Cons.prems(3) show ?thesis by simp
  qed
qed

text \<open>
  C8. A HUSB, WIFE or CHIL line of a family record stores \<open>clean_id\<close> of its value, and
  a level-0 line \<open>0 t INDI\<close> stores its record under \<open>clean_id t\<close>. So when the value of
  the reference is the wrapped form \<open>t\<close> of an individual record opened anywhere in the
  file, the identifier stored in the family is a key of the individuals mapping
  returned. Stripping a stripped identifier changes nothing.
\<close>

theorem family_reference_resolves:
  assumes pre: "parse_loop init_state pre = Inr s"
    and ctx: "current_type s = Some FAM" "current s = Some c"
    and ref: "split_line ref = Some (level, tag, t)" "level \<noteq> ''0''"
    and tag: "tag = ''HUSB'' \<or> tag = ''WIFE'' \<or> tag = ''CHIL''"
    and l: "l \<in> set (pre @ ref # post)" "split_line l = Some (''0'', t, ''INDI'')"
      "startswith_at t"
  shows "\<exists>s1 fam r. process_line s ref = Inr s1 \<and> families s1 c = Some fam \<and>
           (tag = ''HUSB'' \<longrightarrow> f_husb fam = clean_id t) \<and>
           (tag = ''WIFE'' \<longrightarrow> f_wife fam = clean_id t) \<and>
           (tag = ''CHIL'' \<longrightarrow> f_chil fam \<noteq> [] \<and> last (f_chil fam) = clean_id t) \<and>
           parse_loop init_state (pre @ ref # post) = Inr r \<and>
           people r (clean_id t) \<noteq> None \<and>
           clean_id (clean_id t) = clean_id t"
proof -
  from parse_loop_wf [OF wf_init_state, of pre] pre have "wf_state s" by simp
  with ctx obtain fam0 where fam0: "families s c = Some fam0"
    by (auto simp: wf_state_def)
  have eq: "process_line s ref = fam_line s tag t"
    using ref ctx(1) by (rule process_line_fam)
  from tag ctx(2) fam0
  have step: "\<exists>s1 fam. process_line s ref = Inr s1 \<and> families s1 c = Some fam \<and>
           (tag = ''HUSB'' \<longrightarrow> f_husb fam = clean_id t) \<and>
           (tag = ''WIFE'' \<longrightarrow> f_wife fam = clean_id t) \<and>
           (tag = ''CHIL'' \<longrightarrow> f_chil fam \<noteq> [] \<and> last (f_chil fam) = clean_id t)"
    unfolding eq by (auto simp: fam_line_def upd_family_ctx)
  from parse_loop_wf [OF wf_init_state, of "pre @ ref # post"]
  obtain r where r: "parse_loop init_state (pre @ ref # post) = Inr r" by blast
  from l(2,3) have "opens ''INDI'' l" and "line_id l = clean_id t"
    by (simp_all add: opens_def line_id_def)
  with opened_present [OF r l(1)] have "people r (clean_id t) \<noteq> None" by simp
  with step r clean_id_idem show ?thesis by blast
qed

section \<open>The claims at concrete inputs\<close>

text \<open>The definitions that evaluate a line, a step of the loop and a whole text.\<close>

lemmas line_eval = split_line_def py_strip_def strip_with_def py_isspace_def

lemmas step_eval = process_line_def handle_def new_record_def indi_line_def fam_line_def
  sour_line_def upd_person_def upd_family_def upd_source_def clean_id_def startswith_at_def
  Let_def

lemmas text_eval = parse_gedcom_def file_lines_def unlines_def init_state_def

text \<open>
  C9. The file with the individual \<open>@I1@\<close> (the root, FAMC \<open>@F1@\<close>) and the family
  \<open>@F1@\<close> (HUSB \<open>@I2@\<close>, WIFE \<open>@I3@\<close>, MARR, DATE 4 JUL 1950, PLAC Boston) parses to
  mappings where the events of \<open>F1\<close> are the marriage date 4 JUL 1950 and the marriage
  place Boston, and building two generations from them gives \<open>I1\<close>, then \<open>I2\<close> and
  \<open>I3\<close>.
\<close>

theorem end_to_end_example:
  "parse_gedcom ex_text = Inr (ex_people, ex_families, Map.empty, Some ''I1'') \<and>
   map_option f_events (ex_families ''F1'')
     = Some [''marriage_date'' \<mapsto> ''4 JUL 1950'', ''marriage_place'' \<mapsto> ''Boston''] \<and>
   build_generations ex_people ex_families ''I1'' 2 = [1 \<mapsto> [''I1''], 2 \<mapsto> [''I2'', ''I3'']]"
proof (intro conjI)
  show "parse_gedcom ex_text = Inr (ex_people, ex_families, Map.empty, Some ''I1'')"
    by (simp add: ex_text_def text_eval line_eval step_eval ex_people_def ex_families_def)
  show "map_option f_events (ex_families ''F1'')
     = Some [''marriage_date'' \<mapsto> ''4 JUL 1950'', ''marriage_place'' \<mapsto> ''Boston'']"
    by (simp add: ex_families_def)
  show "build_generations ex_people ex_families ''I1'' 2 = [1 \<mapsto> [''I1''], 2 \<mapsto> [''I2'', ''I3'']]"
    by (rule ex_build_2)
qed

text \<open>C1 at the file with the one-field line: parsing returns.\<close>

theorem parse_gedcom_never_fails_witness:
  "\<exists>r. parse_gedcom garbage_text = Inr r"
  using parse_gedcom_never_fails [of garbage_text] by (rule conjunct1)

text \<open>C1 as first stated fails: the file has a non-blank line of fewer than two
  fields, and parsing returns the mappings built from the other lines.\<close>

theorem malformed_line_counterexample:
  "''GARBAGE\<newline>'' \<in> set (file_lines garbage_text) \<and>
   py_strip ''GARBAGE\<newline>'' \<noteq> [] \<and>
   skipped ''GARBAGE\<newline>'' \<and>
   parse_gedcom garbage_text =
     Inr ([''I1'' \<mapsto> \<lparr>i_id = ''I1'', i_name = ''John Smith'', i_events = Map.empty,
                        i_sources = [], i_famc = [], i_fams = []\<rparr>],
          Map.empty, Map.empty, Some ''I1'')"
proof (intro conjI)
  show "''GARBAGE\<newline>'' \<in> set (file_lines garbage_text)"
    by (simp add: garbage_text_def file_lines_def unlines_def)
  show "py_strip ''GARBAGE\<newline>'' \<noteq> []"
    by (simp add: py_strip_def strip_with_def py_isspace_def)
  show "skipped ''GARBAGE\<newline>''"
    by (simp add: skipped_def line_eval)
  show "parse_gedcom garbage_text =
     Inr ([''I1'' \<mapsto> \<lparr>i_id = ''I1'', i_name = ''John Smith'', i_events = Map.empty,
                        i_sources = [], i_famc = [], i_fams = []\<rparr>],
          Map.empty, Map.empty, Some ''I1'')"
    by (simp add: garbage_text_def text_eval line_eval step_eval)
qed

text \<open>C7 at the example file.\<close>

theorem parse_gedcom_root_witness:
  "\<exists>P F S. parse_gedcom ex_text = Inr (P, F, S, Some ''I1'')"
proof -
  have "spec_first_individual (file_lines ex_text) = Some ''I1''"
    by (simp add: spec_first_individual_def opens_def line_id_def ex_text_def file_lines_def
          unlines_def line_eval clean_id_def startswith_at_def)
  with parse_gedcom_root [of ex_text] show ?thesis by simp
qed

text \<open>
  C4. Inside an individual record, after a BIRT (respectively DEAT) line only the first
  DATE line that follows is to be captured, as \<open>birth_date\<close> (respectively
  \<open>death_date\<close>), and a later DATE line before another BIRT or DEAT line is to be
  discarded. The source does not do this when an event tag arrives while the flag of
  another event is still pending: BIRT and DEAT (lines 92-95) do not clear the other
  flag, and DATE serves \<open>in_birth\<close> first (lines 103-108). In the file where a birth
  with a place and no date is followed by a death with a date, the date of the death
  is stored as \<open>birth_date\<close> and no \<open>death_date\<close> is stored.
\<close>

theorem deat_date_stored_as_birth:
  "map_option i_events (fst (projr (parse_gedcom birth_place_only_text)) ''I1'')
     = Some [''birth_date'' \<mapsto> ''3 MAR 1970'']"
  by (simp add: birth_place_only_text_def text_eval line_eval step_eval)

text \<open>The same defect on two DATE lines: with a death date pending before BIRT, the
  first DATE is the birth date and the second DATE is not discarded but becomes the
  death date.\<close>

lemma second_date_stored_as_death:
  "map_option i_events (fst (projr (parse_gedcom two_dates_prefix)) ''I1'')
     = Some [''birth_date'' \<mapsto> ''1 JAN 1900''] \<and>
   map_option i_events (fst (projr (parse_gedcom two_dates_text)) ''I1'')
     = Some [''birth_date'' \<mapsto> ''1 JAN 1900'', ''death_date'' \<mapsto> ''2 JAN 1900'']"
proof
  show "map_option i_events (fst (projr (parse_gedcom two_dates_prefix)) ''I1'')
     = Some [''birth_date'' \<mapsto> ''1 JAN 1900'']"
    by (simp add: two_dates_prefix_def text_eval line_eval step_eval)
  show "map_option i_events (fst (projr (parse_gedcom two_dates_text)) ''I1'')
     = Some [''birth_date'' \<mapsto> ''1 JAN 1900'', ''death_date'' \<mapsto> ''2 JAN 1900'']"
    by (simp add: two_dates_text_def text_eval line_eval step_eval)
qed

text \<open>C6 as first stated fails: a level-0 line that opens \<open>@I1@\<close> again replaces the
  record, and the name and child-of list gathered so far are gone.\<close>

theorem reused_identifier_counterexample:
  "fst (projr (parse_gedcom reuse_prefix)) ''I1''
     = Some \<lparr>i_id = ''I1'', i_name = ''John Smith'', i_events = Map.empty, i_sources = [],
              i_famc = [''F1''], i_fams = []\<rparr> \<and>
   fst (projr (parse_gedcom reuse_text)) ''I1''
     = Some \<lparr>i_id = ''I1'', i_name = [], i_events = Map.empty, i_sources = [],
              i_famc = [], i_fams = []\<rparr>"
proof
  show "fst (projr (parse_gedcom reuse_prefix)) ''I1''
     = Some \<lparr>i_id = ''I1'', i_name = ''John Smith'', i_events = Map.empty, i_sources = [],
              i_famc = [''F1''], i_fams = []\<rparr>"
    by (simp add: reuse_prefix_def text_eval line_eval step_eval)
  show "fst (projr (parse_gedcom reuse_text)) ''I1''
     = Some \<lparr>i_id = ''I1'', i_name = [], i_events = Map.empty, i_sources = [],
              i_famc = [], i_fams = []\<rparr>"
    by (simp add: reuse_text_def text_eval line_eval step_eval)
qed

text \<open>C5 where the birth date is known and the birth place is not, where only the death
  date is known, and where no date is known.\<close>

theorem plac_fills_first_empty_slot_witness:
  "process_line born_state ''2 PLAC Boston'' =
     Inr (born_state\<lparr>people := (people born_state)(''I1'' \<mapsto>
            born_person\<lparr>i_events := (i_events born_person)(''birth_place'' \<mapsto> ''Boston'')\<rparr>)\<rparr>) \<and>
   process_line died_state ''2 PLAC Boston'' =
     Inr (died_state\<lparr>people := (people died_state)(''I1'' \<mapsto>
            died_person\<lparr>i_events := (i_events died_person)(''death_place'' \<mapsto> ''Boston'')\<rparr>)\<rparr>) \<and>
   process_line fresh_state ''2 PLAC Boston'' = Inr fresh_state"
proof (intro conjI)
  have line: "split_line ''2 PLAC Boston'' = Some (''2'', ''PLAC'', ''Boston'')"
    by (simp add: line_eval)
  have level: "''2'' \<noteq> ''0''" by simp
  have born: "current_type born_state = Some INDI" "current born_state = Some ''I1''"
      "people born_state ''I1'' = Some born_person"
    by (simp_all add: born_state_def)
  have born_slot: "i_events born_person ''birth_date'' \<noteq> None \<and>
              i_events born_person ''birth_place'' = None"
    by (simp add: born_person_def)
  from plac_fills_first_empty_slot [OF born line level] born_slot
  show "process_line born_state ''2 PLAC Boston'' =
     Inr (born_state\<lparr>people := (people born_state)(''I1'' \<mapsto>
            born_person\<lparr>i_events := (i_events born_person)(''birth_place'' \<mapsto> ''Boston'')\<rparr>)\<rparr>)"
    by blast
  have died: "current_type died_state = Some INDI" "current died_state = Some ''I1''"
      "people died_state ''I1'' = Some died_person"
    by (simp_all add: died_state_def)
  have died_slot: "\<not> (i_events died_person ''birth_date'' \<noteq> None \<and>
                 i_events died_person ''birth_place'' = None) \<and>
              i_events died_person ''death_date'' \<noteq> None \<and>
              i_events died_person ''death_place'' = None"
    by (simp add: died_person_def)
  from plac_fills_first_empty_slot [OF died line level] died_slot
  show "process_line died_state ''2 PLAC Boston'' =
     Inr (died_state\<lparr>people := (people died_state)(''I1'' \<mapsto>
            died_person\<lparr>i_events := (i_events died_person)(''death_place'' \<mapsto> ''Boston'')\<rparr>)\<rparr>)"
    by blast
  have fresh: "current_type fresh_state = Some INDI" "current fresh_state = Some ''I1''"
      "people fresh_state ''I1'' = Some fresh_person"
    by (simp_all add: fresh_state_def)
  have no_slot: "\<not> (i_events fresh_person ''birth_date'' \<noteq> None \<and>
                 i_events fresh_person ''birth_place'' = None) \<and>
              \<not> (i_events fresh_person ''death_date'' \<noteq> None \<and>
                 i_events fresh_person ''death_place'' = None)"
    by (simp add: fresh_person_def)
  from plac_fills_first_empty_slot [OF fresh line level] no_slot
  show "process_line fresh_state ''2 PLAC Boston'' = Inr fresh_state"
    by blast
qed

text \<open>C6, as amended, on a FAMC line and level-0 lines for another individual and
  another family.\<close>

theorem records_only_grow_witness:
  "wf_state full_state \<and>
   (\<exists>s' p' fam fam' src'.
      parse_loop full_state [''1 FAMC @F2@'', ''0 @I2@ INDI'', ''0 @F2@ FAM''] = Inr s' \<and>
      people s' ''I1'' = Some p' \<and> individual_grows born_person p' \<and>
      families full_state ''F1'' = Some fam \<and>
      families s' ''F1'' = Some fam' \<and> family_grows fam fam' \<and>
      sources s' ''S1'' = Some src' \<and> source_kept ex_source src')"
proof -
  let ?ls = "[''1 FAMC @F2@'', ''0 @I2@ INDI'', ''0 @F2@ FAM'']"
  have wf: "wf_state full_state" by (simp add: wf_state_def full_state_def)
  have here: "people full_state ''I1'' = Some born_person"
    "sources full_state ''S1'' = Some ex_source"
    by (simp_all add: full_state_def)
  obtain fam where fam: "families full_state ''F1'' = Some fam"
    by (simp add: full_state_def ex_families_def)
  have none: "\<not> list_ex (reopens ''INDI'' ''I1'') ?ls" "\<not> list_ex (reopens ''FAM'' ''F1'') ?ls"
    "\<not> list_ex (reopens ''SOUR'' ''S1'') ?ls"
    by (simp_all add: reopens_def opens_def line_id_def line_eval clean_id_def)
  from records_only_grow [OF wf, of ?ls] obtain s'
    where s': "parse_loop full_state ?ls = Inr s'"
      and p: "\<forall>k p. people full_state k = Some p \<and> \<not> list_ex (reopens ''INDI'' k) ?ls \<longrightarrow>
              (\<exists>p'. people s' k = Some p' \<and> individual_grows p p')"
      and f: "\<forall>k fam. families full_state k = Some fam \<and> \<not> list_ex (reopens ''FAM'' k) ?ls \<longrightarrow>
              (\<exists>fam'. families s' k = Some fam' \<and> family_grows fam fam')"
      and src: "\<forall>k src. sources full_state k = Some src \<and> \<not> list_ex (reopens ''SOUR'' k) ?ls \<longrightarrow>
              (\<exists>src'. sources s' k = Some src' \<and> source_kept src src')"
    by blast
  from p here(1) none(1) obtain p' where p': "people s' ''I1'' = Some p'"
    "individual_grows born_person p'" by blast
  from src here(2) none(3) obtain src' where src': "sources s' ''S1'' = Some src'"
    "source_kept ex_source src'" by blast
  from f fam none(2) obtain fam' where fam': "families s' ''F1'' = Some fam'"
    "family_grows fam fam'" by blast
  from wf s' p' src' fam fam' show ?thesis by blast
qed

text \<open>C8 on a family that names the individual opened first as husband, as wife and as
  child.\<close>

theorem family_reference_resolves_witness:
  "(\<exists>s1 fam r. process_line fam_state ''1 HUSB @I2@'' = Inr s1 \<and>
     families s1 ''F1'' = Some fam \<and> f_husb fam = ''I2'' \<and>
     parse_loop init_state [''0 @I2@ INDI'', ''0 @F1@ FAM'', ''1 HUSB @I2@''] = Inr r \<and>
     people r ''I2'' \<noteq> None) \<and>
   (\<exists>s1 fam r. process_line fam_state ''1 WIFE @I2@'' = Inr s1 \<and>
     families s1 ''F1'' = Some fam \<and> f_wife fam = ''I2'' \<and>
     parse_loop init_state [''0 @I2@ INDI'', ''0 @F1@ FAM'', ''1 WIFE @I2@''] = Inr r \<and>
     people r ''I2'' \<noteq> None) \<and>
   (\<exists>s1 fam r. process_line fam_state ''1 CHIL @I2@'' = Inr s1 \<and>
     families s1 ''F1'' = Some fam \<and> last (f_chil fam) = ''I2'' \<and>
     parse_loop init_state [''0 @I2@ INDI'', ''0 @F1@ FAM'', ''1 CHIL @I2@''] = Inr r \<and>
     people r ''I2'' \<noteq> None)"
proof -
  have pre: "parse_loop init_state [''0 @I2@ INDI'', ''0 @F1@ FAM''] = Inr fam_state"
    by (simp add: init_state_def fam_state_def line_eval step_eval)
  have ctx: "current_type fam_state = Some FAM" "current fam_state = Some ''F1''"
    by (simp_all add: fam_state_def)
  have level: "''1'' \<noteq> ''0''" by simp
  have opened: "split_line ''0 @I2@ INDI'' = Some (''0'', ''@I2@'', ''INDI'')"
    by (simp add: line_eval)
  have at: "startswith_at ''@I2@''" by (simp add: startswith_at_def)
  have key: "clean_id ''@I2@'' = ''I2''" by (simp add: clean_id_def strip_with_def)
  have l: "''0 @I2@ INDI'' \<in> set ([''0 @I2@ INDI'', ''0 @F1@ FAM''] @ ref # [])" for ref
    by simp
  have husb: "split_line ''1 HUSB @I2@'' = Some (''1'', ''HUSB'', ''@I2@'')"
    by (simp add: line_eval)
  have wife: "split_line ''1 WIFE @I2@'' = Some (''1'', ''WIFE'', ''@I2@'')"
    by (simp add: line_eval)
  have chil: "split_line ''1 CHIL @I2@'' = Some (''1'', ''CHIL'', ''@I2@'')"
    by (simp add: line_eval)
  have tag: "''HUSB'' = ''HUSB'' \<or> ''HUSB'' = ''WIFE'' \<or> ''HUSB'' = ''CHIL''"
    "''WIFE'' = ''HUSB'' \<or> ''WIFE'' = ''WIFE'' \<or> ''WIFE'' = ''CHIL''"
    "''CHIL'' = ''HUSB'' \<or> ''CHIL'' = ''WIFE'' \<or> ''CHIL'' = ''CHIL''"
    by simp_all
  from family_reference_resolves [OF pre ctx husb level tag(1) l opened at]
  have "\<exists>s1 fam r. process_line fam_state ''1 HUSB @I2@'' = Inr s1 \<and>
     families s1 ''F1'' = Some fam \<and> f_husb fam = ''I2'' \<and>
     parse_loop init_state [''0 @I2@ INDI'', ''0 @F1@ FAM'', ''1 HUSB @I2@''] = Inr r \<and>
     people r ''I2'' \<noteq> None"
    by (simp add: key del: parse_loop.simps) blast
  moreover from family_reference_resolves [OF pre ctx wife level tag(2) l opened at]
  have "\<exists>s1 fam r. process_line fam_state ''1 WIFE @I2@'' = Inr s1 \<and>
     families s1 ''F1'' = Some fam \<and> f_wife fam = ''I2'' \<and>
     parse_loop init_state [''0 @I2@ INDI'', ''0 @F1@ FAM'', ''1 WIFE @I2@''] = Inr r \<and>
     people r ''I2'' \<noteq> None"
    by (simp add: key del: parse_loop.simps) blast
  moreover from family_reference_resolves [OF pre ctx chil level tag(3) l opened at]
  have "\<exists>s1 fam r. process_line fam_state ''1 CHIL @I2@'' = Inr s1 \<and>
     families s1 ''F1'' = Some fam \<and> last (f_chil fam) = ''I2'' \<and>
     parse_loop init_state [''0 @I2@ INDI'', ''0 @F1@ FAM'', ''1 CHIL @I2@''] = Inr r \<and>
     people r ''I2'' \<noteq> None"
    by (simp add: key del: parse_loop.simps) blast
  ultimately show ?thesis by (intro conjI)
qed

end
